theory Spec2Isabelle
  imports Complex_Main "HOL-Library.Word" "HOL-Library.Log_Nat"
begin

unbundle bit_operations_syntax

section \<open>Python values, exceptions and the library functions the miner calls\<close>

text \<open>
  The miner is a Python 3 program. Its integers are unbounded (\<open>int\<close>), its byte strings
  are lists of 8-bit words, its text strings are lists of characters. An exception that the
  program does not catch is the \<open>Inl\<close> branch of a sum; the program has no
  \<^verbatim>\<open>try\<close> around any of the functions below, so a raised exception leaves every caller.
\<close>

type_synonym byte = "8 word"
type_synonym bytes = "byte list"

datatype py_error =
    ValueError
  | TypeError
  | StructError
  | UnboundLocalError
  | ZeroDivisionError
  | OverflowError
  | JSONDecodeError
  | KeyError
  | OSError

text \<open>
  The values \<^verbatim>\<open>json.loads\<close> returns, which are the values the work source hands to
  the miner: \<^verbatim>\<open>None\<close>, booleans, numbers, strings, lists, and dictionaries
  (as the list of their items, keys distinct).
\<close>

datatype json =
    JNull
  | JBool bool
  | JNum real
  | JStr string
  | JArr "json list"
  | JObj "(string \<times> json) list"

subsection \<open>\<^verbatim>\<open>range\<close> and slices\<close>

text \<open>\<^verbatim>\<open>range(start, stop, step)\<close> for a positive step, as the list it iterates over.\<close>

definition py_range :: "nat \<Rightarrow> nat \<Rightarrow> nat \<Rightarrow> nat list" where
  "py_range start stop step =
     map (\<lambda>k. start + k * step) [0..<(stop - start + step - 1) div step]"

text \<open>\<^verbatim>\<open>xs[i:j]\<close> for \<open>0 \<le> i \<le> j\<close>: it never raises, and stops at the end of \<open>xs\<close>.\<close>

definition py_slice :: "'a list \<Rightarrow> nat \<Rightarrow> nat \<Rightarrow> 'a list" where
  "py_slice xs i j = take (j - i) (drop i xs)"

subsection \<open>\<^verbatim>\<open>struct.pack\<close> and \<^verbatim>\<open>struct.unpack\<close> with the format \<^verbatim>\<open>I\<close>\<close>

text \<open>
  The format \<^verbatim>\<open>@I\<close> is an unsigned 4-byte integer in the byte order of the host,
  \<^verbatim>\<open><I\<close> the same in little-endian order. \<^verbatim>\<open>unpack\<close> raises
  \<^verbatim>\<open>struct.error\<close> unless the buffer has exactly 4 bytes; \<^verbatim>\<open>pack\<close> raises it
  unless \<open>0 \<le> v < 2^32\<close>.
\<close>

datatype byteorder = LittleEndian | BigEndian

definition unpack_I :: "byteorder \<Rightarrow> bytes \<Rightarrow> py_error + int" where
  "unpack_I bo buf =
     (case buf of
        [b0, b1, b2, b3] \<Rightarrow>
          (case bo of
             LittleEndian \<Rightarrow> Inr (uint b0 + 256 * uint b1 + 65536 * uint b2 + 16777216 * uint b3)
           | BigEndian \<Rightarrow> Inr (uint b3 + 256 * uint b2 + 65536 * uint b1 + 16777216 * uint b0))
      | _ \<Rightarrow> Inl StructError)"

definition le32 :: "int \<Rightarrow> bytes" where
  "le32 v = [word_of_int v, word_of_int (v div 256),
             word_of_int (v div 65536), word_of_int (v div 16777216)]"

definition pack_I :: "byteorder \<Rightarrow> int \<Rightarrow> py_error + bytes" where
  "pack_I bo v =
     (if v < 0 \<or> 4294967296 \<le> v then Inl StructError
      else (case bo of
              LittleEndian \<Rightarrow> Inr (le32 v)
            | BigEndian \<Rightarrow> Inr (rev (le32 v))))"

section \<open>Byte-order transforms\<close>

text \<open>
  \<^verbatim>\<open>def uint32(x): return x & 0xffffffff\<close>

  \<^verbatim>\<open>def bytereverse(x): return uint32(((x << 24) | ((x << 8) & 0x00ff0000) |
  ((x >> 8) & 0x0000ff00) | (x >> 24)))\<close>
\<close>

definition uint32 :: "int \<Rightarrow> int" where
  "uint32 x = x AND 0xffffffff"

definition bytereverse :: "int \<Rightarrow> int" where
  "bytereverse x =
     uint32 (push_bit 24 x OR (push_bit 8 x AND 0x00ff0000)
             OR (drop_bit 8 x AND 0x0000ff00) OR drop_bit 24 x)"

text \<open>
  Both transforms walk over the slices \<^verbatim>\<open>in_buf[i:i + 4]\<close> for \<open>i\<close> in
  \<^verbatim>\<open>range(0, len(in_buf), 4)\<close>; \<open>words4\<close> names that list of slices.
\<close>

definition words4 :: "bytes \<Rightarrow> bytes list" where
  "words4 in_buf = map (\<lambda>i. py_slice in_buf i (i + 4)) (py_range 0 (length in_buf) 4)"

text \<open>
  \<^verbatim>\<open>bufreverse\<close>: for every \<open>i\<close> of \<^verbatim>\<open>range(0, len(in_buf), 4)\<close>, unpack
  \<^verbatim>\<open>in_buf[i:i + 4]\<close>, reverse the bytes of the word, pack it and append it to
  \<^verbatim>\<open>out_words\<close>; the result is the concatenation. The loop is the recursion over the
  indices; an exception of \<^verbatim>\<open>unpack\<close> or \<^verbatim>\<open>pack\<close> ends it.
\<close>

fun bufreverse_loop :: "byteorder \<Rightarrow> bytes \<Rightarrow> nat list \<Rightarrow> bytes list \<Rightarrow> py_error + bytes list" where
  "bufreverse_loop bo in_buf [] out_words = Inr out_words"
| "bufreverse_loop bo in_buf (i # rest) out_words =
     (case unpack_I bo (py_slice in_buf i (i + 4)) of
        Inl e \<Rightarrow> Inl e
      | Inr word \<Rightarrow>
          (case pack_I bo (bytereverse word) of
             Inl e \<Rightarrow> Inl e
           | Inr w \<Rightarrow> bufreverse_loop bo in_buf rest (out_words @ [w])))"

definition bufreverse :: "byteorder \<Rightarrow> bytes \<Rightarrow> py_error + bytes" where
  "bufreverse bo in_buf =
     (case bufreverse_loop bo in_buf (py_range 0 (length in_buf) 4) [] of
        Inl e \<Rightarrow> Inl e
      | Inr out_words \<Rightarrow> Inr (concat out_words))"

text \<open>
  \<^verbatim>\<open>wordreverse\<close>: collect the slices \<^verbatim>\<open>in_buf[i:i + 4]\<close>, reverse their order,
  concatenate. Nothing in it can raise.
\<close>

definition wordreverse :: "bytes \<Rightarrow> bytes" where
  "wordreverse in_buf =
     concat (rev (map (\<lambda>i. py_slice in_buf i (i + 4)) (py_range 0 (length in_buf) 4)))"


section \<open>Hexadecimal text\<close>

text \<open>
  \<^verbatim>\<open>bytes.hex()\<close> writes two lower-case digits per byte. \<^verbatim>\<open>bytes.fromhex(s)\<close> reads
  two digits (either case) per byte and skips ASCII whitespace between bytes; it raises
  \<^verbatim>\<open>ValueError\<close> on any other character or on a byte cut in half, and
  \<^verbatim>\<open>TypeError\<close> when its argument is not a string.
\<close>

definition hexdigit :: "nat \<Rightarrow> char" where
  "hexdigit k = (if k < 10 then char_of (48 + k) else char_of (87 + k))"

definition hexval :: "char \<Rightarrow> nat option" where
  "hexval c =
     (let n = (of_char c :: nat) in
      if 48 \<le> n \<and> n \<le> 57 then Some (n - 48)
      else if 97 \<le> n \<and> n \<le> 102 then Some (n - 87)
      else if 65 \<le> n \<and> n \<le> 70 then Some (n - 55)
      else None)"

definition is_space :: "char \<Rightarrow> bool" where
  "is_space c = ((of_char c :: nat) \<in> {32, 9, 10, 11, 12, 13})"

definition bytes_hex :: "bytes \<Rightarrow> string" where
  "bytes_hex b = concat (map (\<lambda>x. [hexdigit (unat x div 16), hexdigit (unat x mod 16)]) b)"

fun fromhex :: "string \<Rightarrow> py_error + bytes" where
  "fromhex [] = Inr []"
| "fromhex [c] = (if is_space c then Inr [] else Inl ValueError)"
| "fromhex (c # d # rest) =
     (if is_space c then fromhex (d # rest)
      else (case hexval c of
              None \<Rightarrow> Inl ValueError
            | Some hi \<Rightarrow>
                (case hexval d of
                   None \<Rightarrow> Inl ValueError
                 | Some lo \<Rightarrow>
                     (case fromhex rest of
                        Inl e \<Rightarrow> Inl e
                      | Inr b \<Rightarrow> Inr (of_nat (16 * hi + lo) # b)))))"

definition bytes_fromhex :: "json \<Rightarrow> py_error + bytes" where
  "bytes_fromhex v = (case v of JStr s \<Rightarrow> fromhex s | _ \<Rightarrow> Inl TypeError)"

text \<open>
  \<^verbatim>\<open>int(s, 16)\<close> on the strings the miner passes to it, which are results of
  \<^verbatim>\<open>bytes.hex()\<close>: the value of the digits, most significant first, and
  \<^verbatim>\<open>ValueError\<close> for the empty string (and for a character that is no digit).
\<close>

fun int16_digits :: "int \<Rightarrow> string \<Rightarrow> py_error + int" where
  "int16_digits acc [] = Inr acc"
| "int16_digits acc (c # cs) =
     (case hexval c of
        None \<Rightarrow> Inl ValueError
      | Some d \<Rightarrow> int16_digits (16 * acc + int d) cs)"

definition py_int16 :: "string \<Rightarrow> py_error + int" where
  "py_int16 s = (if s = [] then Inl ValueError else int16_digits 0 s)"

section \<open>The hash primitive\<close>

text \<open>
  \<^verbatim>\<open>hashlib.sha256\<close> is a library primitive: the miner is modelled over any hash function
  \<open>H\<close>, and \<open>sha256\<close> below is the function the program runs with. A hash object is the
  bytes fed to it so far: \<^verbatim>\<open>update\<close> appends, \<^verbatim>\<open>copy\<close> is the value itself,
  \<^verbatim>\<open>digest\<close> hashes what was fed.
\<close>

type_synonym hashfn = "bytes \<Rightarrow> bytes"
type_synonym hash_o = bytes

definition hash_new :: hash_o where
  "hash_new = []"

definition hash_update :: "hash_o \<Rightarrow> bytes \<Rightarrow> hash_o" where
  "hash_update h d = h @ d"

definition hash_digest :: "hashfn \<Rightarrow> hash_o \<Rightarrow> bytes" where
  "hash_digest H h = H h"

section \<open>SHA-256\<close>

text \<open>
  \<^verbatim>\<open>hashlib.sha256\<close> as FIPS 180-4 defines it, on 32-bit words: the message is padded
  with the byte \<open>0x80\<close>, zero bytes and its length in bits as 8 big-endian bytes, up to
  a multiple of 64 bytes, and each block of 64 bytes is compressed into the eight words of
  the state.
\<close>

type_synonym u32 = "32 word"

definition sha256_K :: "u32 list" where
  "sha256_K =
    [0x428A2F98, 0x71374491, 0xB5C0FBCF, 0xE9B5DBA5, 0x3956C25B, 0x59F111F1, 0x923F82A4, 0xAB1C5ED5,
     0xD807AA98, 0x12835B01, 0x243185BE, 0x550C7DC3, 0x72BE5D74, 0x80DEB1FE, 0x9BDC06A7, 0xC19BF174,
     0xE49B69C1, 0xEFBE4786, 0x0FC19DC6, 0x240CA1CC, 0x2DE92C6F, 0x4A7484AA, 0x5CB0A9DC, 0x76F988DA,
     0x983E5152, 0xA831C66D, 0xB00327C8, 0xBF597FC7, 0xC6E00BF3, 0xD5A79147, 0x06CA6351, 0x14292967,
     0x27B70A85, 0x2E1B2138, 0x4D2C6DFC, 0x53380D13, 0x650A7354, 0x766A0ABB, 0x81C2C92E, 0x92722C85,
     0xA2BFE8A1, 0xA81A664B, 0xC24B8B70, 0xC76C51A3, 0xD192E819, 0xD6990624, 0xF40E3585, 0x106AA070,
     0x19A4C116, 0x1E376C08, 0x2748774C, 0x34B0BCB5, 0x391C0CB3, 0x4ED8AA4A, 0x5B9CCA4F, 0x682E6FF3,
     0x748F82EE, 0x78A5636F, 0x84C87814, 0x8CC70208, 0x90BEFFFA, 0xA4506CEB, 0xBEF9A3F7, 0xC67178F2]"

definition sha256_H0 :: "u32 list" where
  "sha256_H0 =
    [0x6A09E667, 0xBB67AE85, 0x3C6EF372, 0xA54FF53A, 0x510E527F, 0x9B05688C, 0x1F83D9AB, 0x5BE0CD19]"

definition Ch :: "u32 \<Rightarrow> u32 \<Rightarrow> u32 \<Rightarrow> u32" where
  "Ch x y z = (x AND y) XOR (NOT x AND z)"

definition Maj :: "u32 \<Rightarrow> u32 \<Rightarrow> u32 \<Rightarrow> u32" where
  "Maj x y z = (x AND y) XOR (x AND z) XOR (y AND z)"

definition bsig0 :: "u32 \<Rightarrow> u32" where
  "bsig0 x = word_rotr 2 x XOR word_rotr 13 x XOR word_rotr 22 x"

definition bsig1 :: "u32 \<Rightarrow> u32" where
  "bsig1 x = word_rotr 6 x XOR word_rotr 11 x XOR word_rotr 25 x"

definition ssig0 :: "u32 \<Rightarrow> u32" where
  "ssig0 x = word_rotr 7 x XOR word_rotr 18 x XOR drop_bit 3 x"

definition ssig1 :: "u32 \<Rightarrow> u32" where
  "ssig1 x = word_rotr 17 x XOR word_rotr 19 x XOR drop_bit 10 x"

definition be32 :: "bytes \<Rightarrow> u32" where
  "be32 b = foldl (\<lambda>w x. push_bit 8 w OR ucast x) 0 b"

definition u32_bytes :: "u32 \<Rightarrow> bytes" where
  "u32_bytes w = [ucast (drop_bit 24 w), ucast (drop_bit 16 w), ucast (drop_bit 8 w), ucast w]"

fun be_bytes :: "nat \<Rightarrow> nat \<Rightarrow> bytes" where
  "be_bytes 0 n = []"
| "be_bytes (Suc k) n = be_bytes k (n div 256) @ [of_nat (n mod 256)]"

definition sha256_pad :: "bytes \<Rightarrow> bytes" where
  "sha256_pad m =
     m @ [0x80] @ replicate ((119 - length m mod 64) mod 64) 0 @ be_bytes 8 (8 * length m)"

fun sha256_schedule :: "nat \<Rightarrow> u32 list \<Rightarrow> u32 list" where
  "sha256_schedule 0 ws = ws"
| "sha256_schedule (Suc n) ws =
     sha256_schedule n
       (ws @ [ssig1 (ws ! (length ws - 2)) + ws ! (length ws - 7)
              + ssig0 (ws ! (length ws - 15)) + ws ! (length ws - 16)])"

fun sha256_round :: "u32 list \<Rightarrow> u32 \<times> u32 \<Rightarrow> u32 list" where
  "sha256_round [a, b, c, d, e, f, g, h] (k, w) =
     (let t1 = h + bsig1 e + Ch e f g + k + w;
          t2 = bsig0 a + Maj a b c
      in [t1 + t2, a, b, c, d + t1, e, f, g])"
| "sha256_round s kw = s"

fun be32_words :: "nat \<Rightarrow> bytes \<Rightarrow> u32 list" where
  "be32_words 0 b = []"
| "be32_words (Suc n) b = be32 (take 4 b) # be32_words n (drop 4 b)"

definition sha256_compress :: "u32 list \<Rightarrow> bytes \<Rightarrow> u32 list" where
  "sha256_compress hs block =
     map2 (+) hs
       (foldl sha256_round hs (zip sha256_K (sha256_schedule 48 (be32_words 16 block))))"

fun sha256_blocks :: "nat \<Rightarrow> u32 list \<Rightarrow> bytes \<Rightarrow> u32 list" where
  "sha256_blocks 0 hs b = hs"
| "sha256_blocks (Suc n) hs b = sha256_blocks n (sha256_compress hs (take 64 b)) (drop 64 b)"

definition sha256 :: hashfn where
  "sha256 m =
     (let p = sha256_pad m
      in concat (map u32_bytes (sha256_blocks (length p div 64) sha256_H0 p)))"

text \<open>
  A second hash function with 32-byte digests, small enough to follow by hand. Of an 80-byte
  input it keeps the byte at offset 76 (the lowest byte of the nonce, after a 76-byte
  header); of any other input it makes a digest that ends in four zero bytes exactly when
  the input ends in the byte 2, and that is then zero throughout. It gives the theorems
  about the search an instance in which a proof of work exists at a small nonce.
\<close>

definition example_hash :: hashfn where
  "example_hash x =
     (if length x = 80 then replicate 31 0 @ [x ! 76]
      else replicate 28 0 @ replicate 4 (if last x = 2 then 0 else 1))"

section \<open>The miner\<close>

text \<open>
  \<^verbatim>\<open>ERR_SLEEP = 15\<close>, \<^verbatim>\<open>MAX_NONCE = 1000000\<close>; a \<^verbatim>\<open>Miner\<close> has an
  \<^verbatim>\<open>id\<close> and its \<^verbatim>\<open>max_nonce\<close>, which starts at \<^verbatim>\<open>MAX_NONCE\<close>.
\<close>

definition ERR_SLEEP :: int where
  "ERR_SLEEP = 15"

definition MAX_NONCE :: int where
  "MAX_NONCE = 1000000"

record miner =
  miner_id :: int
  max_nonce :: int

definition Miner :: "int \<Rightarrow> miner" where
  "Miner i = \<lparr>miner_id = i, max_nonce = MAX_NONCE\<rparr>"

subsection \<open>\<^verbatim>\<open>Miner.work\<close>\<close>

text \<open>
  Lines 112 to 114: the target string is decoded, the bytes reversed
  (\<^verbatim>\<open>[::-1]\<close>), written as hex and parsed as an integer.
\<close>

definition work_target :: "json \<Rightarrow> py_error + int" where
  "work_target targetstr =
     (case bytes_fromhex targetstr of
        Inl e \<Rightarrow> Inl e
      | Inr b \<Rightarrow> py_int16 (bytes_hex (rev b)))"

text \<open>
  Lines 132 to 136: the digest goes through \<^verbatim>\<open>bufreverse\<close>, then
  \<^verbatim>\<open>wordreverse\<close>, is written as hex and parsed as an integer.
\<close>

definition hash_int :: "byteorder \<Rightarrow> bytes \<Rightarrow> py_error + int" where
  "hash_int bo hash_val =
     (case bufreverse bo hash_val of
        Inl e \<Rightarrow> Inl e
      | Inr hash_val1 \<Rightarrow> py_int16 (bytes_hex (wordreverse hash_val1)))"

text \<open>
  Lines 120 to 127: the double hash of the header and the packed nonce.
\<close>

definition hash_nonce :: "hashfn \<Rightarrow> hash_o \<Rightarrow> bytes \<Rightarrow> bytes" where
  "hash_nonce H static_hash nonce_bin =
     (let hash1 = hash_digest H (hash_update static_hash nonce_bin)
      in hash_digest H (hash_update hash_new hash1))"

text \<open>
  Line 129: the test \<^verbatim>\<open>hash_val[-4:] != b'\0\0\0\0'\<close> fails, so that the pass goes
  on to the comparison. \<^verbatim>\<open>hash_val[-4:]\<close> is the last four bytes, or all of them when
  there are fewer.
\<close>

definition prefilter_pass :: "bytes \<Rightarrow> bool" where
  "prefilter_pass hash_val = (drop (length hash_val - 4) hash_val = [0, 0, 0, 0])"

text \<open>
  The body of the loop (lines 120 to 142) for one \<open>nonce\<close>: \<open>Some nonce_bin\<close> when it
  returns the proof of work, \<open>None\<close> when the loop goes on (the \<^verbatim>\<open>continue\<close> of line 130,
  or the false positive of line 142). Printing is not modelled.
\<close>

definition work_trial ::
  "hashfn \<Rightarrow> byteorder \<Rightarrow> hash_o \<Rightarrow> int \<Rightarrow> int \<Rightarrow> py_error + bytes option" where
  "work_trial H bo static_hash target nonce =
     (case pack_I LittleEndian nonce of
        Inl e \<Rightarrow> Inl e
      | Inr nonce_bin \<Rightarrow>
          (let hash_val = hash_nonce H static_hash nonce_bin in
           if \<not> prefilter_pass hash_val then Inr None
           else (case hash_int bo hash_val of
                   Inl e \<Rightarrow> Inl e
                 | Inr l \<Rightarrow> if l < target then Inr (Some nonce_bin) else Inr None)))"

text \<open>
  The loop \<^verbatim>\<open>for nonce in range(self.max_nonce)\<close> over the list of nonces still to try.
  The third argument is the variable \<^verbatim>\<open>nonce\<close> as the last pass left it: \<open>None\<close>
  while no pass has bound it. After the loop, line 144 returns \<^verbatim>\<open>nonce + 1, None\<close>,
  which reads the variable: unbound, Python raises \<^verbatim>\<open>UnboundLocalError\<close>.
\<close>

fun work_loop ::
  "hashfn \<Rightarrow> byteorder \<Rightarrow> hash_o \<Rightarrow> int \<Rightarrow> int list \<Rightarrow> int option
     \<Rightarrow> py_error + (int \<times> bytes option)" where
  "work_loop H bo static_hash target [] var =
     (case var of
        None \<Rightarrow> Inl UnboundLocalError
      | Some nonce \<Rightarrow> Inr (nonce + 1, None))"
| "work_loop H bo static_hash target (nonce # rest) var =
     (case work_trial H bo static_hash target nonce of
        Inl e \<Rightarrow> Inl e
      | Inr (Some nonce_bin) \<Rightarrow> Inr (nonce + 1, Some nonce_bin)
      | Inr None \<Rightarrow> work_loop H bo static_hash target rest (Some nonce))"

text \<open>
  Lines 108 to 110: the header string is decoded, goes through \<^verbatim>\<open>bufreverse\<close>, and
  its first 76 bytes are the block header.
\<close>

definition work_header :: "byteorder \<Rightarrow> json \<Rightarrow> py_error + bytes" where
  "work_header bo datastr =
     (case bytes_fromhex datastr of
        Inl e \<Rightarrow> Inl e
      | Inr static_data0 \<Rightarrow>
          (case bufreverse bo static_data0 of
             Inl e \<Rightarrow> Inl e
           | Inr static_data \<Rightarrow> Inr (py_slice static_data 0 76)))"

text \<open>
  \<^verbatim>\<open>work(self, datastr, targetstr)\<close>: \<^verbatim>\<open>range(n)\<close> is the list \<open>[0..n - 1]\<close>,
  empty when \<open>n \<le> 0\<close>.
\<close>

definition work ::
  "hashfn \<Rightarrow> byteorder \<Rightarrow> miner \<Rightarrow> json \<Rightarrow> json \<Rightarrow> py_error + (int \<times> bytes option)" where
  "work H bo self datastr targetstr =
     (case work_header bo datastr of
        Inl e \<Rightarrow> Inl e
      | Inr blk_hdr \<Rightarrow>
          (case work_target targetstr of
             Inl e \<Rightarrow> Inl e
           | Inr target \<Rightarrow>
               (let static_hash = hash_update hash_new blk_hdr
                in work_loop H bo static_hash target [0..max_nonce self - 1] None)))"

text \<open>
  What the claims about the search say of one nonce: its digest, and whether the value the
  search reads from the digest is below the target.
\<close>

definition nonce_digest :: "hashfn \<Rightarrow> bytes \<Rightarrow> int \<Rightarrow> bytes" where
  "nonce_digest H blk_hdr n = hash_nonce H (hash_update hash_new blk_hdr) (le32 n)"

definition below_target :: "byteorder \<Rightarrow> bytes \<Rightarrow> int \<Rightarrow> bool" where
  "below_target bo hash_val target =
     (case hash_int bo hash_val of Inl e \<Rightarrow> False | Inr l \<Rightarrow> l < target)"

subsection \<open>\<^verbatim>\<open>Miner.submit_work\<close>\<close>

text \<open>
  Line 147 to 149: the solution text that is sent back. \<^verbatim>\<open>original_data[160:256]\<close>
  stops at offset 256.
\<close>

definition submit_solution :: "byteorder \<Rightarrow> json \<Rightarrow> bytes \<Rightarrow> py_error + string" where
  "submit_solution bo original_data nonce_bin =
     (case bufreverse bo nonce_bin of
        Inl e \<Rightarrow> Inl e
      | Inr nonce_bin1 \<Rightarrow>
          (let nonce = bytes_hex nonce_bin1
           in case original_data of
                JStr s \<Rightarrow> Inr (py_slice s 0 152 @ nonce @ py_slice s 160 256)
              | _ \<Rightarrow> Inl TypeError))"

section \<open>The work source\<close>

text \<open>
  The operator \<^verbatim>\<open>in\<close> with a string on the left, and the subscript with a string key,
  on the values \<^verbatim>\<open>json.loads\<close> returns: a dictionary is asked for the key, a list for
  an equal element, a string for a substring; \<^verbatim>\<open>None\<close>, booleans and numbers raise
  \<^verbatim>\<open>TypeError\<close>. Only a dictionary can be subscripted with a string.
\<close>

fun contains_sub :: "string \<Rightarrow> string \<Rightarrow> bool" where
  "contains_sub sub [] = (sub = [])"
| "contains_sub sub (c # cs) = (take (length sub) (c # cs) = sub \<or> contains_sub sub cs)"

definition py_in :: "string \<Rightarrow> json \<Rightarrow> py_error + bool" where
  "py_in k v =
     (case v of
        JObj items \<Rightarrow> Inr (map_of items k \<noteq> None)
      | JArr xs \<Rightarrow> Inr (JStr k \<in> set xs)
      | JStr s \<Rightarrow> Inr (contains_sub k s)
      | _ \<Rightarrow> Inl TypeError)"

definition py_getitem :: "json \<Rightarrow> string \<Rightarrow> py_error + json" where
  "py_getitem v k =
     (case v of
        JObj items \<Rightarrow> (case map_of items k of None \<Rightarrow> Inl KeyError | Some x \<Rightarrow> Inr x)
      | _ \<Rightarrow> Inl TypeError)"

text \<open>
  One exchange with the work source, as \<^verbatim>\<open>BitcoinRPC.rpc\<close> sees it: the connection
  raises (\<open>Conn_error\<close>), \<^verbatim>\<open>getresponse\<close> gives \<^verbatim>\<open>None\<close> (\<open>No_response\<close>), the
  body is not JSON, so that \<^verbatim>\<open>json.loads\<close> raises (\<open>Body_invalid\<close>), or the body
  decodes to a value. The request itself (its id counter, the authorisation header) is not
  modelled.
\<close>

datatype http_reply = Conn_error | No_response | Body_invalid | Body json

text \<open>Lines 67 to 74, for a decoded \<^verbatim>\<open>resp_obj\<close> that is not \<^verbatim>\<open>None\<close>.\<close>

definition rpc_result :: "json \<Rightarrow> py_error + json" where
  "rpc_result resp_obj =
     (case py_in ''result'' resp_obj of
        Inl e \<Rightarrow> Inl e
      | Inr False \<Rightarrow> Inr JNull
      | Inr True \<Rightarrow> py_getitem resp_obj ''result'')"

definition rpc_error_or_result :: "json \<Rightarrow> py_error + json" where
  "rpc_error_or_result resp_obj =
     (case py_in ''error'' resp_obj of
        Inl e \<Rightarrow> Inl e
      | Inr False \<Rightarrow> rpc_result resp_obj
      | Inr True \<Rightarrow>
          (case py_getitem resp_obj ''error'' of
             Inl e \<Rightarrow> Inl e
           | Inr err \<Rightarrow> if err \<noteq> JNull then Inr err else rpc_result resp_obj))"

fun rpc :: "http_reply \<Rightarrow> py_error + json" where
  "rpc Conn_error = Inl OSError"
| "rpc No_response = Inr JNull"
| "rpc Body_invalid = Inl JSONDecodeError"
| "rpc (Body resp_obj) = (if resp_obj = JNull then Inr JNull else rpc_error_or_result resp_obj)"

section \<open>Floats\<close>

text \<open>
  \<^verbatim>\<open>time.time()\<close> returns a Python float, an IEEE 754 binary64 number. Lines 168 and 170
  subtract two of them, divide an integer by the difference and truncate the quotient. A
  finite float is given here by the rational number it denotes, and the result of an
  operation is the exact result rounded to the nearest binary64 number, a tie going to the
  even mantissa; a result whose rounded magnitude reaches \<open>2 ^ 1024\<close> is an infinity
  (\<open>Infinity True\<close> is the negative one). The sign of a zero is not kept: the program
  divides by a zero, which raises whatever the sign, or truncates one, which gives 0. No
  operation of these lines gives a NaN.
\<close>

datatype float64 = Finite rat | Infinity bool

text \<open>\<open>ilog2 x\<close> is the integer \<open>k\<close> with \<open>2 ^ k \<le> x < 2 ^ (k + 1)\<close>, for a positive \<open>x\<close>.\<close>

definition ilog2 :: "rat \<Rightarrow> int" where
  "ilog2 x = (if 1 \<le> x then bitlen \<lfloor>x\<rfloor> - 1 else - bitlen (\<lceil>1 / x\<rceil> - 1))"

definition round_half_even :: "rat \<Rightarrow> int" where
  "round_half_even z =
     (let f = \<lfloor>z\<rfloor>; r = z - of_int f
      in if r < 1 / 2 then f else if 1 / 2 < r then f + 1 else if even f then f else f + 1)"

text \<open>
  The exponent of the last mantissa bit of a positive number: 52 places below its leading
  bit, and not below \<open>-1074\<close>, where the subnormal numbers are.
\<close>

definition float_exponent :: "rat \<Rightarrow> int" where
  "float_exponent a = max (ilog2 a - 52) (- 1074)"

definition round_abs :: "rat \<Rightarrow> rat" where
  "round_abs a =
     of_int (round_half_even (a / 2 powi float_exponent a)) * 2 powi float_exponent a"

definition round64 :: "rat \<Rightarrow> float64" where
  "round64 x =
     (if x = 0 then Finite 0
      else if 2 powi 1024 \<le> round_abs \<bar>x\<bar> then Infinity (x < 0)
      else Finite (sgn x * round_abs \<bar>x\<bar>))"

definition is_double :: "rat \<Rightarrow> bool" where
  "is_double x = (round64 x = Finite x)"

definition nonpositive :: "float64 \<Rightarrow> bool" where
  "nonpositive f = (case f of Finite d \<Rightarrow> d \<le> 0 | Infinity s \<Rightarrow> s)"

text \<open>
  The conversion of the integer operand of \<^verbatim>\<open>/\<close>: an integer that rounds out of the range
  raises \<^verbatim>\<open>OverflowError\<close> (int too large to convert to float).
\<close>

definition float_of_int :: "int \<Rightarrow> py_error + rat" where
  "float_of_int n =
     (case round64 (of_int n) of
        Finite v \<Rightarrow> Inr v
      | Infinity s \<Rightarrow> Inl OverflowError)"

text \<open>Line 168, \<^verbatim>\<open>time_end - time_start\<close>, on two finite floats. It raises nothing.\<close>

definition float_sub :: "rat \<Rightarrow> rat \<Rightarrow> float64" where
  "float_sub x y = round64 (x - y)"

text \<open>
  An integer divided by a float. The integer is converted first; then a zero divisor raises
  \<^verbatim>\<open>ZeroDivisionError\<close>; otherwise the quotient is rounded, and a quotient that
  overflows is an infinity, with no exception. A finite number divided by an infinity is a
  zero.
\<close>

definition int_truediv_float :: "int \<Rightarrow> float64 \<Rightarrow> py_error + float64" where
  "int_truediv_float n d =
     (case float_of_int n of
        Inl e \<Rightarrow> Inl e
      | Inr a \<Rightarrow>
          (case d of
             Finite v \<Rightarrow> if v = 0 then Inl ZeroDivisionError else Inr (round64 (a / v))
           | Infinity s \<Rightarrow> Inr (Finite 0)))"

text \<open>
  \<^verbatim>\<open>int\<close> of a float truncates towards zero, and raises \<^verbatim>\<open>OverflowError\<close> on an
  infinity (cannot convert float infinity to integer).
\<close>

definition py_int_of_float :: "float64 \<Rightarrow> py_error + int" where
  "py_int_of_float q =
     (case q of
        Finite v \<Rightarrow> Inr (if 0 \<le> v then \<lfloor>v\<rfloor> else \<lceil>v\<rceil>)
      | Infinity s \<Rightarrow> Inl OverflowError)"

section \<open>\<^verbatim>\<open>Miner.iterate\<close>\<close>

text \<open>
  The settings \<^verbatim>\<open>iterate\<close> reads, what it reads from the outside in one call (the
  reply to the fetch, the two clock readings, the reply to the submission), and what it does
  to the outside (the pause, the submission). A clock reading is a finite float, given by
  the rational number it denotes.
\<close>

record settings =
  scantime :: int
  hashmeter :: int

record world =
  fetch_reply :: http_reply
  time_start :: rat
  time_end :: rat
  submit_reply :: http_reply

datatype event = Sleep int | Submit string

text \<open>Line 170: \<^verbatim>\<open>int((hashes_done * settings['scantime']) / time_diff)\<close>.\<close>

definition new_max_nonce :: "int \<Rightarrow> int \<Rightarrow> float64 \<Rightarrow> py_error + int" where
  "new_max_nonce hashes_done scantime_v time_diff =
     (case int_truediv_float (hashes_done * scantime_v) time_diff of
        Inl e \<Rightarrow> Inl e
      | Inr q \<Rightarrow> py_int_of_float q)"

text \<open>Lines 171 and 172.\<close>

definition clamp_max_nonce :: "int \<Rightarrow> int" where
  "clamp_max_nonce n = (if n > 0xfffffffa then 0xfffffffa else n)"

text \<open>Line 159: \<^verbatim>\<open>'data' not in work or 'target' not in work\<close>.\<close>

definition fields_missing :: "json \<Rightarrow> py_error + bool" where
  "fields_missing work_v =
     (case py_in ''data'' work_v of
        Inl e \<Rightarrow> Inl e
      | Inr False \<Rightarrow> Inr True
      | Inr True \<Rightarrow>
          (case py_in ''target'' work_v of
             Inl e \<Rightarrow> Inl e
           | Inr b \<Rightarrow> Inr (\<not> b)))"

text \<open>
  \<^verbatim>\<open>submit_work\<close>: build the solution, send it, print the reply. The reply's content
  is not used; an exception of the exchange leaves the function.
\<close>

definition submit_work :: "byteorder \<Rightarrow> http_reply \<Rightarrow> json \<Rightarrow> bytes \<Rightarrow> py_error + event" where
  "submit_work bo reply original_data nonce_bin =
     (case submit_solution bo original_data nonce_bin of
        Inl e \<Rightarrow> Inl e
      | Inr solution \<Rightarrow>
          (case rpc reply of
             Inl e \<Rightarrow> Inl e
           | Inr result \<Rightarrow> Inr (Submit solution)))"

text \<open>
  Lines 163 to 179, after the fetch: the search between the two clock readings, the new
  \<^verbatim>\<open>max_nonce\<close>, the hash meter (a print, with no effect here), the submission.
\<close>

definition iterate_search ::
  "hashfn \<Rightarrow> byteorder \<Rightarrow> settings \<Rightarrow> world \<Rightarrow> miner \<Rightarrow> json \<Rightarrow> json
     \<Rightarrow> py_error + (miner \<times> event list)" where
  "iterate_search H bo st w self data target =
     (case work H bo self data target of
        Inl e \<Rightarrow> Inl e
      | Inr (hashes_done, nonce_bin) \<Rightarrow>
          (let time_diff = float_sub (time_end w) (time_start w) in
           case new_max_nonce hashes_done (scantime st) time_diff of
             Inl e \<Rightarrow> Inl e
           | Inr n \<Rightarrow>
               (let self1 = self\<lparr>max_nonce := clamp_max_nonce n\<rparr> in
                case nonce_bin of
                  None \<Rightarrow> Inr (self1, [])
                | Some nb \<Rightarrow>
                    (case submit_work bo (submit_reply w) data nb of
                       Inl e \<Rightarrow> Inl e
                     | Inr ev \<Rightarrow> Inr (self1, [ev])))))"

text \<open>
  \<^verbatim>\<open>iterate(self, rpc)\<close>: the miner after the call and what the call did, or the
  exception that left it. \<^verbatim>\<open>Miner.loop\<close> calls it forever and catches nothing, so an
  exception here ends the worker process.
\<close>

definition iterate ::
  "hashfn \<Rightarrow> byteorder \<Rightarrow> settings \<Rightarrow> world \<Rightarrow> miner \<Rightarrow> py_error + (miner \<times> event list)" where
  "iterate H bo st w self =
     (case rpc (fetch_reply w) of
        Inl e \<Rightarrow> Inl e
      | Inr work_v \<Rightarrow>
          if work_v = JNull then Inr (self, [Sleep ERR_SLEEP])
          else (case fields_missing work_v of
                  Inl e \<Rightarrow> Inl e
                | Inr True \<Rightarrow> Inr (self, [Sleep ERR_SLEEP])
                | Inr False \<Rightarrow>
                    (case py_getitem work_v ''data'' of
                       Inl e \<Rightarrow> Inl e
                     | Inr data \<Rightarrow>
                         (case py_getitem work_v ''target'' of
                            Inl e \<Rightarrow> Inl e
                          | Inr target \<Rightarrow> iterate_search H bo st w self data target))))"

section \<open>Lemmas about the byte-order transforms\<close>

text \<open>
  The value \<^verbatim>\<open>unpack\<close> reads from four bytes, bit by bit, and what
  \<^verbatim>\<open>bytereverse\<close> and \<^verbatim>\<open>pack\<close> make of it: the four bytes in reverse order, in
  either byte order of the host.
\<close>

lemma le4_concat: "uint (b0::byte) + 256 * uint (b1::byte) + 65536 * uint (b2::byte) + 16777216 * uint (b3::byte)
   = concat_bit 8 (uint b0) (concat_bit 8 (uint b1) (concat_bit 8 (uint b2) (uint b3)))"
  by (simp add: concat_bit_eq push_bit_eq_mult bintr_uint)

lemma mask_00ff0000: "(0x00ff0000::int) = push_bit 16 (mask 8)" by (simp add: mask_eq_exp_minus_1 push_bit_eq_mult)

lemma mask_0000ff00: "(0x0000ff00::int) = push_bit 8 (mask 8)" by (simp add: mask_eq_exp_minus_1 push_bit_eq_mult)

lemma mask_ffffffff: "(0xffffffff::int) = mask 32" by (simp add: mask_eq_exp_minus_1)

lemma bit_byte: "bit (uint (b::byte)) n \<longleftrightarrow> n < 8 \<and> bit b n"
  by (auto simp add: bit_uint_iff dest: bit_imp_le_length)

lemma bit_byte_hi: "8 \<le> n \<Longrightarrow> \<not> bit (b::byte) n"
  by (auto dest: bit_imp_le_length)

lemma bytereverse_le4:
  "bytereverse (uint (b0::byte) + 256 * uint (b1::byte) + 65536 * uint (b2::byte) + 16777216 * uint (b3::byte))
   = uint b3 + 256 * uint b2 + 65536 * uint b1 + 16777216 * uint b0"
  unfolding le4_concat bytereverse_def uint32_def mask_00ff0000 mask_0000ff00 mask_ffffffff
proof (rule bit_eqI)
  fix n :: nat
  let ?x = "concat_bit 8 (uint b0) (concat_bit 8 (uint b1) (concat_bit 8 (uint b2) (uint b3)))"
  consider "n < 8" | "8 \<le> n" "n < 16" | "16 \<le> n" "n < 24" | "24 \<le> n" "n < 32" | "32 \<le> n"
    by linarith
  then show "bit ((push_bit 24 ?x OR (push_bit 8 ?x AND push_bit 16 (mask 8)) OR
              (drop_bit 8 ?x AND push_bit 8 (mask 8)) OR drop_bit 24 ?x) AND mask 32) n
          = bit (concat_bit 8 (uint b3) (concat_bit 8 (uint b2) (concat_bit 8 (uint b1) (uint b0)))) n"
  proof cases
    case 1 then show ?thesis by (auto simp add: bit_simps bit_byte bit_byte_hi)
  next
    case 2 then show ?thesis by (auto simp add: bit_simps bit_byte bit_byte_hi)
  next
    case 3 then show ?thesis by (auto simp add: bit_simps bit_byte bit_byte_hi)
  next
    case 4 then show ?thesis by (auto simp add: bit_simps bit_byte bit_byte_hi)
  next
    case 5 then show ?thesis by (auto simp add: bit_simps bit_byte bit_byte_hi)
  qed
qed

lemma pack_le4:
  "pack_I LittleEndian (uint (b0::byte) + 256 * uint (b1::byte) + 65536 * uint (b2::byte) + 16777216 * uint (b3::byte))
     = Inr [b0, b1, b2, b3]"
proof -
  let ?x = "uint b0 + 256 * uint b1 + 65536 * uint b2 + 16777216 * uint b3"
  have r: "0 \<le> ?x" "?x < 4294967296"
    using uint_lt2p[of b0] uint_lt2p[of b1] uint_lt2p[of b2] uint_lt2p[of b3]
          uint_ge_0[of b0] uint_ge_0[of b1] uint_ge_0[of b2] uint_ge_0[of b3]
    by simp_all
  have d: "?x div 256 = drop_bit 8 ?x" "?x div 65536 = drop_bit 16 ?x" "?x div 16777216 = drop_bit 24 ?x"
    by (simp_all add: drop_bit_eq_div)
  have w: "word_of_int ?x = b0" "word_of_int (drop_bit 8 ?x) = b1"
          "word_of_int (drop_bit 16 ?x) = b2" "word_of_int (drop_bit 24 ?x) = b3"
    unfolding le4_concat
    by (rule bit_word_eqI; auto simp add: bit_simps bit_byte bit_byte_hi)+
  have nn: "\<not> (?x < 0 \<or> 4294967296 \<le> ?x)" using r by linarith
  show ?thesis
    by (simp only: pack_I_def le32_def nn if_False d w byteorder.case)
qed

lemma pack_be4:
  "pack_I BigEndian (uint (b0::byte) + 256 * uint (b1::byte) + 65536 * uint (b2::byte) + 16777216 * uint (b3::byte))
     = Inr [b3, b2, b1, b0]"
proof -
  let ?x = "uint b0 + 256 * uint b1 + 65536 * uint b2 + 16777216 * uint b3"
  have "pack_I LittleEndian ?x = Inr [b0, b1, b2, b3]" by (rule pack_le4)
  then show ?thesis
    by (auto simp add: pack_I_def split: if_splits)
qed

lemma unpack_pack_rev:
  assumes "length w = 4"
  shows "\<exists>x. unpack_I bo w = Inr x \<and> pack_I bo (bytereverse x) = Inr (rev w)"
proof -
  from assms obtain b0 b1 b2 b3 where w: "w = [b0, b1, b2, b3]"
    by (auto simp add: length_Suc_conv numeral_eq_Suc)
  show ?thesis
  proof (cases bo)
    case LittleEndian
    then show ?thesis
      by (simp add: w unpack_I_def bytereverse_le4 pack_le4)
  next
    case BigEndian
    then show ?thesis
      by (simp add: w unpack_I_def bytereverse_le4 pack_be4)
  qed
qed

lemma unpack_bad: "length w \<noteq> 4 \<Longrightarrow> unpack_I bo w = Inl StructError"
  by (auto simp add: unpack_I_def split: list.splits)

text \<open>The slices of a buffer: the first four bytes, then the slices of the rest.\<close>

lemma words4_rec: "buf \<noteq> [] \<Longrightarrow> words4 buf = take 4 buf # words4 (drop 4 buf)"
proof -
  assume ne: "buf \<noteq> []"
  let ?n = "length buf"
  have n: "0 < ?n" using ne by simp
  have cnt: "(?n + 4 - 1) div 4 = Suc ((?n - 4 + 4 - 1) div 4)"
  proof (cases "4 \<le> ?n")
    case True
    then have "?n + 4 - 1 = (?n - 4 + 4 - 1) + 4" by simp
    then show ?thesis by (simp only: div_add_self2)
  next
    case False
    with n have "?n = 1 \<or> ?n = 2 \<or> ?n = 3" by linarith
    then show ?thesis by auto
  qed
  have "[0..<(?n + 4 - 1) div 4] = 0 # map Suc [0..<(?n - 4 + 4 - 1) div 4]"
    unfolding cnt by (simp add: upt_conv_Cons map_Suc_upt del: upt_Suc)
  then show ?thesis
    by (simp add: words4_def py_range_def py_slice_def comp_def add.commute)
qed

lemma words4_Nil: "words4 [] = []"
  by (simp add: words4_def py_range_def)

lemma concat_words4: "concat (words4 buf) = buf"
proof (induction "length buf" arbitrary: buf rule: less_induct)
  case less
  show ?case
  proof (cases "buf = []")
    case True then show ?thesis by (simp add: words4_Nil)
  next
    case False
    then have "length (drop 4 buf) < length buf" by simp
    then have "concat (words4 (drop 4 buf)) = drop 4 buf" by (rule less)
    with False show ?thesis by (simp add: words4_rec)
  qed
qed

lemma words4_append:
  "length w = 4 \<Longrightarrow> words4 (w @ buf) = w # words4 buf"
  by (subst words4_rec) auto

lemma words4_concat: "\<forall>w \<in> set ws. length w = 4 \<Longrightarrow> words4 (concat ws) = ws"
  by (induction ws) (simp_all add: words4_Nil words4_append)

lemma words4_length4: "length buf mod 4 = 0 \<Longrightarrow> w \<in> set (words4 buf) \<Longrightarrow> length w = 4"
proof (induction "length buf" arbitrary: buf rule: less_induct)
  case less
  show ?case
  proof (cases "buf = []")
    case True with less.prems show ?thesis by (simp add: words4_Nil)
  next
    case False
    with less.prems(1) have ge: "4 \<le> length buf" by (cases buf) (auto, presburger)
    have lt: "length (drop 4 buf) < length buf" using False by simp
    have m: "length (drop 4 buf) mod 4 = 0" using less.prems(1) ge by simp presburger
    from less.prems(2) False have "w = take 4 buf \<or> w \<in> set (words4 (drop 4 buf))"
      by (simp add: words4_rec)
    then show ?thesis
    proof
      assume "w = take 4 buf" with ge show ?thesis by simp
    next
      assume "w \<in> set (words4 (drop 4 buf))"
      with less.hyps[OF lt m] show ?thesis .
    qed
  qed
qed

lemma slice_in_words4:
  "i \<in> set (py_range 0 (length buf) 4) \<Longrightarrow> py_slice buf i (i + 4) \<in> set (words4 buf)"
  unfolding words4_def by simp

lemma words4_elem:
  "w \<in> set (words4 buf) \<Longrightarrow> \<exists>i \<in> set (py_range 0 (length buf) 4). w = py_slice buf i (i + 4)"
  unfolding words4_def by auto

lemma length_concat4: "\<forall>w \<in> set ws. length w = 4 \<Longrightarrow> length (concat ws) = 4 * length ws"
  by (induction ws) simp_all

lemma words4_concat_append:
  "\<forall>w \<in> set ws. length w = 4 \<Longrightarrow> words4 (concat ws @ ys) = ws @ words4 ys"
  by (induction ws) (simp_all add: words4_append)

lemma words4_short: "ys \<noteq> [] \<Longrightarrow> length ys < 4 \<Longrightarrow> words4 ys = [ys]"
  by (simp add: words4_rec words4_Nil)

text \<open>
  \<^verbatim>\<open>bufreverse\<close> reverses every slice when all slices have four bytes, and raises at the
  short slice otherwise; \<^verbatim>\<open>wordreverse\<close> reverses the list of slices.
\<close>

lemma bufreverse_loop_ok:
  "\<forall>i \<in> set is. length (py_slice buf i (i + 4)) = 4 \<Longrightarrow>
   bufreverse_loop bo buf is acc = Inr (acc @ map (\<lambda>i. rev (py_slice buf i (i + 4))) is)"
proof (induction "is" arbitrary: acc)
  case Nil
  then show ?case by simp
next
  case (Cons i rest)
  then have "length (py_slice buf i (i + 4)) = 4" by simp
  from unpack_pack_rev[OF this, of bo] obtain x where
    x: "unpack_I bo (py_slice buf i (i + 4)) = Inr x"
       "pack_I bo (bytereverse x) = Inr (rev (py_slice buf i (i + 4)))" by blast
  from Cons show ?case by (simp add: x)
qed

lemma bufreverse_loop_bad:
  "\<exists>i \<in> set is. length (py_slice buf i (i + 4)) \<noteq> 4 \<Longrightarrow>
   bufreverse_loop bo buf is acc = Inl StructError"
proof (induction "is" arbitrary: acc)
  case Nil
  then show ?case by simp
next
  case (Cons i rest)
  show ?case
  proof (cases "length (py_slice buf i (i + 4)) = 4")
    case True
    from unpack_pack_rev[OF this, of bo] obtain x where
      x: "unpack_I bo (py_slice buf i (i + 4)) = Inr x"
         "pack_I bo (bytereverse x) = Inr (rev (py_slice buf i (i + 4)))" by blast
    from True Cons.prems have "\<exists>i \<in> set rest. length (py_slice buf i (i + 4)) \<noteq> 4" by auto
    from Cons.IH[OF this] show ?thesis by (simp add: x)
  next
    case False
    then show ?thesis by (simp add: unpack_bad)
  qed
qed

lemma bufreverse_ok:
  assumes "length buf mod 4 = 0"
  shows "bufreverse bo buf = Inr (concat (map rev (words4 buf)))"
proof -
  have "\<forall>i \<in> set (py_range 0 (length buf) 4). length (py_slice buf i (i + 4)) = 4"
  proof
    fix i assume "i \<in> set (py_range 0 (length buf) 4)"
    then have "py_slice buf i (i + 4) \<in> set (words4 buf)" by (rule slice_in_words4)
    with assms show "length (py_slice buf i (i + 4)) = 4" by (rule words4_length4)
  qed
  then have "bufreverse_loop bo buf (py_range 0 (length buf) 4) []
      = Inr ([] @ map (\<lambda>i. rev (py_slice buf i (i + 4))) (py_range 0 (length buf) 4))"
    by (rule bufreverse_loop_ok)
  moreover have "map rev (words4 buf) = map (\<lambda>i. rev (py_slice buf i (i + 4))) (py_range 0 (length buf) 4)"
    unfolding words4_def by (simp add: comp_def)
  ultimately show ?thesis
    unfolding bufreverse_def by simp
qed

lemma bufreverse_bad:
  assumes "length buf mod 4 \<noteq> 0"
  shows "bufreverse bo buf = Inl StructError"
proof -
  have "\<exists>w \<in> set (words4 buf). length w \<noteq> 4"
  proof (rule ccontr)
    assume "\<not> (\<exists>w \<in> set (words4 buf). length w \<noteq> 4)"
    then have all4: "\<forall>w \<in> set (words4 buf). length w = 4" by blast
    then have "length (concat (words4 buf)) = 4 * length (words4 buf)" by (rule length_concat4)
    then have "length buf = 4 * length (words4 buf)"
      by (simp only: concat_words4)
    then have "length buf mod 4 = 0" by simp
    with assms show False by contradiction
  qed
  then obtain w where w: "w \<in> set (words4 buf)" "length w \<noteq> 4" by blast
  from words4_elem[OF w(1)] obtain i where
    i: "i \<in> set (py_range 0 (length buf) 4)" "w = py_slice buf i (i + 4)" by blast
  with w(2) have "\<exists>i \<in> set (py_range 0 (length buf) 4). length (py_slice buf i (i + 4)) \<noteq> 4"
    by blast
  then have "bufreverse_loop bo buf (py_range 0 (length buf) 4) [] = Inl StructError"
    by (rule bufreverse_loop_bad)
  then show ?thesis
    unfolding bufreverse_def by simp
qed

lemma words4_rev_lengths:
  assumes "length buf mod 4 = 0"
  shows "\<forall>w \<in> set (map rev (words4 buf)). length w = 4"
proof
  fix w assume "w \<in> set (map rev (words4 buf))"
  then obtain v where v: "v \<in> set (words4 buf)" "w = rev v" by auto
  from assms v(1) have "length v = 4" by (rule words4_length4)
  with v(2) show "length w = 4" by simp
qed

lemma words4_of_reversed:
  assumes "length buf mod 4 = 0"
  shows "words4 (concat (map rev (words4 buf))) = map rev (words4 buf)"
  using words4_rev_lengths[OF assms] by (rule words4_concat)

lemma bufreverse_twice:
  assumes "length buf mod 4 = 0"
  shows "bufreverse bo (concat (map rev (words4 buf))) = Inr buf"
proof -
  have "length (concat (map rev (words4 buf))) = 4 * length (map rev (words4 buf))"
    using words4_rev_lengths[OF assms] by (rule length_concat4)
  then have len: "length (concat (map rev (words4 buf))) mod 4 = 0" by simp
  have "bufreverse bo (concat (map rev (words4 buf)))
      = Inr (concat (map rev (words4 (concat (map rev (words4 buf))))))"
    using len by (rule bufreverse_ok)
  also have "\<dots> = Inr (concat (map rev (map rev (words4 buf))))"
    by (simp only: words4_of_reversed[OF assms])
  also have "\<dots> = Inr (concat (words4 buf))"
    by (simp add: comp_def)
  finally show ?thesis by (simp only: concat_words4)
qed

lemma wordreverse_words4: "wordreverse buf = concat (rev (words4 buf))"
  by (simp add: wordreverse_def words4_def)

lemma wordreverse_twice: "length buf mod 4 = 0 \<Longrightarrow> wordreverse (wordreverse buf) = buf"
proof -
  assume m: "length buf mod 4 = 0"
  have "\<forall>w \<in> set (rev (words4 buf)). length w = 4"
    using words4_length4[OF m] by simp
  then have "words4 (concat (rev (words4 buf))) = rev (words4 buf)"
    by (rule words4_concat)
  then show ?thesis by (simp add: wordreverse_words4 concat_words4)
qed

lemma wordreverse_bufreverse:
  assumes "length buf mod 4 = 0"
  shows "wordreverse (concat (map rev (words4 buf))) = rev buf"
proof -
  have "wordreverse (concat (map rev (words4 buf))) = concat (rev (map rev (words4 buf)))"
    by (simp only: wordreverse_words4 words4_of_reversed[OF assms])
  also have "\<dots> = rev (concat (words4 buf))"
    by (simp add: rev_concat rev_map)
  finally show ?thesis by (simp only: concat_words4)
qed

lemma wordreverse_remainder:
  assumes "length buf mod 4 \<noteq> 0"
  shows "wordreverse buf =
           drop (length buf - length buf mod 4) buf
           @ wordreverse (take (length buf - length buf mod 4) buf)"
proof -
  define k where "k = length buf - length buf mod 4"
  define xs where "xs = take k buf"
  define ys where "ys = drop k buf"
  have k4: "k = 4 * (length buf div 4)"
    unfolding k_def by (simp add: minus_mod_eq_mult_div)
  have kle: "k \<le> length buf" unfolding k_def by simp
  have lx: "length xs mod 4 = 0"
    unfolding xs_def using kle k4 by (simp add: min_absorb2)
  have "length ys = length buf mod 4"
    unfolding ys_def k_def by simp
  with assms have ys: "ys \<noteq> []" "length ys < 4" by auto
  have all4: "\<forall>w \<in> set (words4 xs). length w = 4"
    using words4_length4[OF lx] by blast
  have "buf = concat (words4 xs) @ ys"
    unfolding xs_def ys_def by (simp only: concat_words4 append_take_drop_id)
  then have "words4 buf = words4 (concat (words4 xs) @ ys)" by simp
  also have "\<dots> = words4 xs @ words4 ys"
    using all4 by (rule words4_concat_append)
  also have "\<dots> = words4 xs @ [ys]"
    by (simp only: words4_short[OF ys])
  finally have "wordreverse buf = ys @ wordreverse xs"
    by (simp add: wordreverse_words4)
  then show ?thesis
    unfolding xs_def ys_def k_def .
qed

section \<open>Lemmas about the search\<close>

text \<open>The integer read from a digest is defined and not negative.\<close>

lemma hexval_hexdigit: "k < 16 \<Longrightarrow> hexval (hexdigit k) = Some k"
  by (auto simp add: hexval_def hexdigit_def Let_def)

lemma int16_digits_hex:
  "0 \<le> acc \<Longrightarrow> \<exists>v. int16_digits acc (bytes_hex b) = Inr v \<and> 0 \<le> v"
proof (induction b arbitrary: acc)
  case Nil
  then show ?case by (simp add: bytes_hex_def)
next
  case (Cons x b)
  have "unat x < 16 * 16"
    using unsigned_less[of x, where 'a = nat] by simp
  then have hi: "unat x div 16 < 16"
    by (rule less_mult_imp_div_less)
  have lo: "unat x mod 16 < 16" by simp
  let ?acc = "16 * (16 * acc + int (unat x div 16)) + int (unat x mod 16)"
  have "0 \<le> ?acc" using Cons.prems by simp
  from Cons.IH[OF this] obtain v where
    "int16_digits ?acc (bytes_hex b) = Inr v" "0 \<le> v" by blast
  then show ?case
    by (simp add: bytes_hex_def hexval_hexdigit[OF hi] hexval_hexdigit[OF lo])
qed

lemma py_int16_hex:
  assumes "b \<noteq> []"
  shows "\<exists>v. py_int16 (bytes_hex b) = Inr v \<and> 0 \<le> v"
proof -
  from assms have "bytes_hex b \<noteq> []"
    by (cases b) (simp_all add: bytes_hex_def)
  then show ?thesis
    using int16_digits_hex[of 0 b] by (simp add: py_int16_def)
qed

lemma hash_int_rev:
  "length d mod 4 = 0 \<Longrightarrow> hash_int bo d = py_int16 (bytes_hex (rev d))"
  by (simp add: hash_int_def bufreverse_ok wordreverse_bufreverse)

lemma hash_int_ok:
  assumes "length d mod 4 = 0" "d \<noteq> []"
  shows "\<exists>l. hash_int bo d = Inr l \<and> 0 \<le> l"
proof -
  from assms(2) have "rev d \<noteq> []" by simp
  from py_int16_hex[OF this] show ?thesis
    by (simp add: hash_int_rev[OF assms(1)])
qed

lemma pack_le_ok: "0 \<le> n \<Longrightarrow> n < 4294967296 \<Longrightarrow> pack_I LittleEndian n = Inr (le32 n)"
  by (simp add: pack_I_def)

text \<open>
  One pass of the loop, for a hash function with 32-byte digests and a nonce that fits in
  32 bits, and the loop over a list of such nonces.
\<close>

lemma work_trial_char:
  assumes H32: "\<forall>x. length (H x) = 32" and n: "0 \<le> n" "n < 4294967296"
  shows "work_trial H bo (hash_update hash_new blk_hdr) target n =
           Inr (if prefilter_pass (nonce_digest H blk_hdr n)
                   \<and> below_target bo (nonce_digest H blk_hdr n) target
                then Some (le32 n) else None)"
proof -
  let ?hv = "nonce_digest H blk_hdr n"
  have len: "length ?hv = 32"
    using H32 by (simp add: nonce_digest_def hash_nonce_def hash_digest_def Let_def)
  then have "length ?hv mod 4 = 0" "?hv \<noteq> []" by auto
  from hash_int_ok[OF this, of bo] obtain l where l: "hash_int bo ?hv = Inr l" by blast
  show ?thesis
    by (simp add: work_trial_def pack_le_ok[OF n] nonce_digest_def[symmetric] Let_def l below_target_def)
qed

lemma work_loop_exhausts:
  assumes H32: "\<forall>x. length (H x) = 32"
    and rng: "\<forall>m \<in> set ns. 0 \<le> m \<and> m < 4294967296"
    and none: "\<forall>m \<in> set ns. \<not> (prefilter_pass (nonce_digest H blk_hdr m)
                                  \<and> below_target bo (nonce_digest H blk_hdr m) target)"
  shows "work_loop H bo (hash_update hash_new blk_hdr) target ns var =
           (case (if ns = [] then var else Some (last ns)) of
              None \<Rightarrow> Inl UnboundLocalError
            | Some k \<Rightarrow> Inr (k + 1, None))"
  using rng none
proof (induction ns arbitrary: var)
  case Nil
  then show ?case by simp
next
  case (Cons m ns)
  then have m: "0 \<le> m" "m < 4294967296" by simp_all
  from Cons.prems have nq: "\<not> (prefilter_pass (nonce_digest H blk_hdr m)
                                  \<and> below_target bo (nonce_digest H blk_hdr m) target)" by simp
  have t: "work_trial H bo (hash_update hash_new blk_hdr) target m = Inr None"
    using nq by (simp only: work_trial_char[OF H32 m] if_False)
  from Cons.prems have
    "\<forall>m \<in> set ns. 0 \<le> m \<and> m < 4294967296"
    "\<forall>m \<in> set ns. \<not> (prefilter_pass (nonce_digest H blk_hdr m)
                                  \<and> below_target bo (nonce_digest H blk_hdr m) target)"
    by simp_all
  from Cons.IH[OF this, of "Some m"] show ?case
    by (simp add: t)
qed

lemma work_loop_finds:
  assumes H32: "\<forall>x. length (H x) = 32"
    and rng: "\<forall>m \<in> set pre. 0 \<le> m \<and> m < 4294967296"
    and none: "\<forall>m \<in> set pre. \<not> (prefilter_pass (nonce_digest H blk_hdr m)
                                  \<and> below_target bo (nonce_digest H blk_hdr m) target)"
    and n: "0 \<le> n" "n < 4294967296"
    and q: "prefilter_pass (nonce_digest H blk_hdr n)" "below_target bo (nonce_digest H blk_hdr n) target"
  shows "work_loop H bo (hash_update hash_new blk_hdr) target (pre @ n # post) var =
           Inr (n + 1, Some (le32 n))"
  using rng none
proof (induction pre arbitrary: var)
  case Nil
  have "work_trial H bo (hash_update hash_new blk_hdr) target n = Inr (Some (le32 n))"
    using q by (simp only: work_trial_char[OF H32 n] simp_thms if_True)
  then show ?case by simp
next
  case (Cons m pre)
  then have m: "0 \<le> m" "m < 4294967296" by simp_all
  from Cons.prems have nq: "\<not> (prefilter_pass (nonce_digest H blk_hdr m)
                                  \<and> below_target bo (nonce_digest H blk_hdr m) target)" by simp
  have t: "work_trial H bo (hash_update hash_new blk_hdr) target m = Inr None"
    using nq by (simp only: work_trial_char[OF H32 m] if_False)
  from Cons.prems have
    "\<forall>m \<in> set pre. 0 \<le> m \<and> m < 4294967296"
    "\<forall>m \<in> set pre. \<not> (prefilter_pass (nonce_digest H blk_hdr m)
                                  \<and> below_target bo (nonce_digest H blk_hdr m) target)"
    by simp_all
  from Cons.IH[OF this, of "Some m"] show ?case
    by (simp add: t)
qed

lemma work_unfold:
  "work_header bo datastr = Inr blk_hdr \<Longrightarrow> work_target targetstr = Inr target \<Longrightarrow>
   work H bo self datastr targetstr =
     work_loop H bo (hash_update hash_new blk_hdr) target [0..max_nonce self - 1] None"
  by (simp add: work_def Let_def)

lemma upto_in_range: "b \<le> 4294967296 \<Longrightarrow> \<forall>m \<in> set [0..b - 1]. 0 \<le> m \<and> m < 4294967296"
  by auto

lemma last_upto0: "0 < b \<Longrightarrow> last [0..b - 1] = b - 1"
  by (simp add: upto_rec2)

lemma never_below_zero:
  assumes "\<forall>x. length (H x) = 32"
  shows "\<not> below_target bo (nonce_digest H blk_hdr m) 0"
proof -
  have "length (nonce_digest H blk_hdr m) = 32"
    using assms by (simp add: nonce_digest_def hash_nonce_def hash_digest_def Let_def)
  then have "length (nonce_digest H blk_hdr m) mod 4 = 0" "nonce_digest H blk_hdr m \<noteq> []"
    by auto
  from hash_int_ok[OF this, of bo] show ?thesis
    by (auto simp add: below_target_def)
qed

lemma work_exhausted:
  assumes H32: "\<forall>x. length (H x) = 32"
    and hdr: "work_header bo datastr = Inr blk_hdr"
    and tgt: "work_target targetstr = Inr target"
    and bound: "max_nonce self \<le> 4294967296"
    and none: "\<forall>m. 0 \<le> m \<and> m < max_nonce self \<longrightarrow>
                 \<not> (prefilter_pass (nonce_digest H blk_hdr m)
                    \<and> below_target bo (nonce_digest H blk_hdr m) target)"
  shows "work H bo self datastr targetstr =
           (if max_nonce self \<le> 0 then Inl UnboundLocalError
            else Inr (max_nonce self, None))"
proof -
  let ?ns = "[0..max_nonce self - 1]"
  have rng: "\<forall>m \<in> set ?ns. 0 \<le> m \<and> m < 4294967296"
    using bound by (rule upto_in_range)
  have none': "\<forall>m \<in> set ?ns. \<not> (prefilter_pass (nonce_digest H blk_hdr m)
                                  \<and> below_target bo (nonce_digest H blk_hdr m) target)"
    using none by simp
  have "work H bo self datastr targetstr =
          (case (if ?ns = [] then None else Some (last ?ns)) of
              None \<Rightarrow> Inl UnboundLocalError
            | Some k \<Rightarrow> Inr (k + 1, None))"
    by (simp only: work_unfold[OF hdr tgt] work_loop_exhausts[OF H32 rng none'])
  then show ?thesis
    by (simp add: last_upto0)
qed

section \<open>Lemmas about the floats\<close>

lemma ilog2_ge1:
  assumes "1 \<le> x"
  shows "2 powi (ilog2 x) \<le> x \<and> x < 2 powi (ilog2 x + 1)"
proof -
  let ?n = "\<lfloor>x\<rfloor>"
  have n: "0 < ?n" using assms by simp
  from bitlen_bounds[OF n] have lo: "2 ^ nat (bitlen ?n - 1) \<le> ?n" and hi: "?n < 2 ^ nat (bitlen ?n)"
    by simp_all
  have b1: "1 \<le> bitlen ?n" using n by (simp add: bitlen_alt_def)
  have il: "ilog2 x = bitlen ?n - 1" using assms by (simp add: ilog2_def)
  have "(2::rat) powi (bitlen ?n - 1) = of_int (2 ^ nat (bitlen ?n - 1))"
    using b1 by (simp add: power_int_nonneg_exp)
  also have "\<dots> \<le> of_int ?n" using lo by (simp only: of_int_le_iff)
  also have "\<dots> \<le> x" by simp
  finally have A: "2 powi (ilog2 x) \<le> x" by (simp add: il)
  have "x < of_int (?n + 1)" by linarith
  also have "\<dots> \<le> of_int (2 ^ nat (bitlen ?n))"
    using hi by (simp only: of_int_le_iff)
  also have "\<dots> = (2::rat) powi (bitlen ?n)"
    using b1 by (simp add: power_int_nonneg_exp)
  finally have B: "x < 2 powi (ilog2 x + 1)" by (simp add: il)
  from A B show ?thesis ..
qed

lemma ilog2_lt1:
  assumes "0 < x" "x < 1"
  shows "2 powi (ilog2 x) \<le> x \<and> x < 2 powi (ilog2 x + 1)"
proof -
  let ?z = "1 / x"
  let ?c = "\<lceil>?z\<rceil>"
  let ?L = "bitlen (?c - 1)"
  have z1: "1 < ?z" using assms by simp
  then have c2: "2 \<le> ?c" by (simp add: le_ceiling_iff)
  then have n: "0 < ?c - 1" by simp
  from bitlen_bounds[OF n] have lo: "2 ^ nat (?L - 1) \<le> ?c - 1" and hi: "?c - 1 < 2 ^ nat ?L"
    by simp_all
  have b1: "1 \<le> ?L" using n by (simp add: bitlen_alt_def)
  have il: "ilog2 x = - ?L" using assms by (simp add: ilog2_def)
  have pos: "(0::rat) < 2 ^ nat ?L" by simp
  have "?z \<le> of_int ?c" by simp
  also have "\<dots> \<le> of_int (2 ^ nat ?L)" using hi by (simp only: of_int_le_iff)
  finally have "?z \<le> 2 ^ nat ?L" by simp
  then have "1 \<le> x * 2 ^ nat ?L" using assms(1) by (simp add: field_simps)
  then have "1 / 2 ^ nat ?L \<le> x" using pos by (simp add: field_simps)
  moreover have "(2::rat) powi (- ?L) = 1 / 2 ^ nat ?L"
    using b1 by (simp add: power_int_minus_divide power_int_nonneg_exp)
  ultimately have A: "2 powi (ilog2 x) \<le> x" by (simp add: il)
  have "of_int (2 ^ nat (?L - 1)) \<le> (of_int (?c - 1) :: rat)" using lo by (simp only: of_int_le_iff)
  also have "\<dots> < ?z" by linarith
  finally have "2 ^ nat (?L - 1) < ?z" by simp
  then have "x * 2 ^ nat (?L - 1) < 1" using assms(1) by (simp add: field_simps)
  then have "x < 1 / 2 ^ nat (?L - 1)" by (simp add: field_simps)
  moreover have "(2::rat) powi (- ?L + 1) = 1 / 2 ^ nat (?L - 1)"
  proof -
    have "(2::rat) powi (- ?L + 1) = 2 powi (- (?L - 1))" by simp
    also have "\<dots> = 1 / 2 powi (?L - 1)" by (rule power_int_minus_divide)
    also have "\<dots> = 1 / 2 ^ nat (?L - 1)" using b1 by (simp add: power_int_nonneg_exp)
    finally show ?thesis .
  qed
  ultimately have B: "x < 2 powi (ilog2 x + 1)" by (simp add: il)
  from A B show ?thesis ..
qed

lemma pow2_less_imp: "(2::rat) powi m < 2 powi n \<Longrightarrow> m < n"
proof (rule ccontr)
  assume a: "(2::rat) powi m < 2 powi n" and "\<not> m < n"
  then have "n \<le> m" by simp
  then have "(2::rat) powi n \<le> 2 powi m" by (rule power_int_increasing) simp
  with a show False by simp
qed

lemma ilog2_bounds:
  "0 < x \<Longrightarrow> 2 powi (ilog2 x) \<le> x \<and> x < 2 powi (ilog2 x + 1)"
  using ilog2_ge1[of x] ilog2_lt1[of x] by (cases "1 \<le> x") simp_all

lemma ilog2_unique:
  assumes "0 < x" "2 powi k \<le> x" "x < 2 powi (k + 1)"
  shows "ilog2 x = k"
proof -
  from ilog2_bounds[OF assms(1)] have b: "2 powi (ilog2 x) \<le> x" "x < 2 powi (ilog2 x + 1)"
    by simp_all
  have "(2::rat) powi (ilog2 x) < 2 powi (k + 1)" using b(1) assms(3) by simp
  then have "ilog2 x < k + 1" by (rule pow2_less_imp)
  moreover have "(2::rat) powi k < 2 powi (ilog2 x + 1)" using b(2) assms(2) by simp
  then have "k < ilog2 x + 1" by (rule pow2_less_imp)
  ultimately show ?thesis by simp
qed

lemma round_half_even_bounds: "\<lfloor>z\<rfloor> \<le> round_half_even z \<and> round_half_even z \<le> \<lceil>z\<rceil>"
proof (cases "z = of_int \<lfloor>z\<rfloor>")
  case True
  then have "z - of_int \<lfloor>z\<rfloor> = 0" by simp
  then have "round_half_even z = \<lfloor>z\<rfloor>" by (simp add: round_half_even_def Let_def)
  then show ?thesis by (simp add: floor_le_ceiling)
next
  case False
  then have "\<lceil>z\<rceil> = \<lfloor>z\<rfloor> + 1" by (simp add: ceiling_altdef)
  then show ?thesis by (simp add: round_half_even_def Let_def)
qed

lemma round_half_even_nonneg: "0 \<le> z \<Longrightarrow> 0 \<le> round_half_even z"
proof -
  assume "0 \<le> z"
  then have "0 \<le> \<lfloor>z\<rfloor>" by simp
  with round_half_even_bounds[of z] show ?thesis by linarith
qed

lemma round_half_even_le: "z \<le> of_int N \<Longrightarrow> round_half_even z \<le> N"
proof -
  assume "z \<le> of_int N"
  then have "\<lceil>z\<rceil> \<le> N" by (simp add: ceiling_le_iff)
  with round_half_even_bounds[of z] show ?thesis by linarith
qed

lemma float_exponent_ge: "ilog2 a - 52 \<le> float_exponent a" "- 1074 \<le> float_exponent a"
  by (simp_all add: float_exponent_def)

lemma pow2_add: "(2::rat) powi (m + n) = 2 powi m * 2 powi n"
  by (rule power_int_add) simp

lemma mantissa_less:
  assumes "0 < a"
  shows "a / 2 powi float_exponent a < 2 ^ 53"
proof -
  let ?e = "float_exponent a"
  from ilog2_bounds[OF assms] have "a < 2 powi (ilog2 a + 1)" by simp
  also have "\<dots> \<le> 2 powi (?e + 53)"
    using float_exponent_ge(1)[of a] by (intro power_int_increasing) simp_all
  also have "\<dots> = 2 powi ?e * 2 ^ 53" by (simp add: pow2_add)
  finally have "a < 2 powi ?e * 2 ^ 53" .
  moreover have "(0::rat) < 2 powi ?e" by simp
  ultimately show ?thesis by (simp add: field_simps)
qed

lemma round_abs_nonneg: "0 < a \<Longrightarrow> 0 \<le> round_abs a"
  by (simp add: round_abs_def round_half_even_nonneg)

lemma round_abs_le:
  assumes "0 < a"
  shows "round_abs a \<le> 2 powi (float_exponent a + 53)"
proof -
  let ?e = "float_exponent a"
  have "a / 2 powi ?e \<le> of_int (2 ^ 53)" using mantissa_less[OF assms] by simp
  then have "round_half_even (a / 2 powi ?e) \<le> 2 ^ 53" by (rule round_half_even_le)
  then have "(of_int (round_half_even (a / 2 powi ?e)) :: rat) \<le> of_int (2 ^ 53)"
    by (simp only: of_int_le_iff)
  then have "of_int (round_half_even (a / 2 powi ?e)) * 2 powi ?e \<le> (2 ^ 53 :: rat) * 2 powi ?e"
    by (intro mult_right_mono) simp_all
  then show ?thesis by (simp add: round_abs_def pow2_add mult.commute)
qed

lemma ilog2_double: "0 < a \<Longrightarrow> ilog2 (2 * a) = ilog2 a + 1"
proof -
  assume a: "0 < a"
  from ilog2_bounds[OF a] have b: "2 powi (ilog2 a) \<le> a" "a < 2 powi (ilog2 a + 1)" by simp_all
  have "2 powi (ilog2 a + 1) \<le> 2 * a" using b(1) by (simp add: pow2_add)
  moreover have "2 * a < 2 powi (ilog2 a + 1 + 1)" using b(2) by (simp add: pow2_add)
  moreover have "0 < 2 * a" using a by simp
  ultimately show ?thesis by (intro ilog2_unique)
qed

lemma round_abs_double:
  assumes "0 < a" "- 1074 \<le> ilog2 a - 52"
  shows "round_abs (2 * a) = 2 * round_abs a"
proof -
  have e: "float_exponent a = ilog2 a - 52" using assms(2) by (simp add: float_exponent_def)
  have e2: "float_exponent (2 * a) = float_exponent a + 1"
    using assms by (simp add: float_exponent_def ilog2_double)
  have "2 * a / 2 powi (float_exponent a + 1) = a / 2 powi float_exponent a"
    by (simp add: pow2_add)
  then show ?thesis
    by (simp add: round_abs_def e2 pow2_add)
qed

lemma round_abs_small:
  assumes "0 < a" "ilog2 a \<le> - 2"
  shows "round_abs a \<le> 1 / 2"
proof -
  have "float_exponent a \<le> - 54" using assms(2) by (simp add: float_exponent_def)
  then have "(2::rat) powi (float_exponent a + 53) \<le> 2 powi (- 1)"
    by (intro power_int_increasing) simp_all
  with round_abs_le[OF assms(1)] show ?thesis by simp
qed

lemma round64_Finite_sign:
  assumes "round64 x = Finite y"
  shows "(0 \<le> x \<longrightarrow> 0 \<le> y) \<and> (x \<le> 0 \<longrightarrow> y \<le> 0)"
proof (cases "x = 0")
  case True
  with assms show ?thesis by (simp add: round64_def)
next
  case False
  then have a: "0 < \<bar>x\<bar>" by simp
  from assms False have y: "y = sgn x * round_abs \<bar>x\<bar>"
    by (simp add: round64_def split: if_splits)
  from round_abs_nonneg[OF a] show ?thesis
    unfolding y by (cases "0 < x") (simp_all add: mult_le_0_iff zero_le_mult_iff sgn_if)
qed

lemma round64_finite:
  assumes "0 \<le> x" "x < 2 powi 1023"
  shows "\<exists>y. round64 x = Finite y \<and> 0 \<le> y"
proof (cases "x = 0")
  case True
  then show ?thesis by (simp add: round64_def)
next
  case False
  with assms(1) have pos: "0 < x" by simp
  from ilog2_bounds[OF pos] assms(2) have "(2::rat) powi (ilog2 x) < 2 powi 1023" by simp
  then have "ilog2 x < 1023" by (rule pow2_less_imp)
  then have "float_exponent x \<le> 970" by (simp add: float_exponent_def)
  then have "(2::rat) powi (float_exponent x + 53) \<le> 2 powi 1023"
    by (intro power_int_increasing) simp_all
  with round_abs_le[OF pos] have "round_abs x \<le> 2 powi 1023" by simp
  also have "\<dots> < (2::rat) powi 1024" by (intro power_int_strict_increasing) simp_all
  finally have "\<not> 2 powi 1024 \<le> round_abs x" by simp
  with pos round_abs_nonneg[OF pos] show ?thesis
    by (simp add: round64_def)
qed

lemma float_of_int_ok:
  assumes "0 \<le> n" "n < 2 ^ 1023"
  shows "\<exists>a. float_of_int n = Inr a \<and> 0 \<le> a"
proof -
  have "(of_int n :: rat) < of_int (2 ^ 1023)" using assms(2) by (simp only: of_int_less_iff)
  then have "(of_int n :: rat) < 2 powi 1023" by simp
  moreover have "(0::rat) \<le> of_int n" using assms(1) by simp
  ultimately obtain y where "round64 (of_int n) = Finite y" "0 \<le> y"
    using round64_finite by blast
  then show ?thesis by (simp add: float_of_int_def)
qed

lemma float_of_int_sign:
  "float_of_int n = Inr a \<Longrightarrow> 0 \<le> n \<Longrightarrow> 0 \<le> a"
  using round64_Finite_sign[of "of_int n" a]
  by (auto simp add: float_of_int_def split: float64.splits)

lemma floor_double_rat:
  fixes q :: rat
  shows "\<lfloor>2 * q\<rfloor> = 2 * \<lfloor>q\<rfloor> \<or> \<lfloor>2 * q\<rfloor> = 2 * \<lfloor>q\<rfloor> + 1"
  by linarith

lemma round64_pos:
  assumes "0 < x"
  shows "round64 x = (if 2 powi 1024 \<le> round_abs x then Infinity False else Finite (round_abs x))"
  using assms by (simp add: round64_def)

lemma halved_quotient:
  assumes x: "0 \<le> x" and q2: "round64 (2 * x) = Finite q2"
  shows "\<exists>q. round64 x = Finite q \<and> 0 \<le> q \<and> (\<lfloor>q2\<rfloor> = 2 * \<lfloor>q\<rfloor> \<or> \<lfloor>q2\<rfloor> = 2 * \<lfloor>q\<rfloor> + 1)"
proof (cases "x = 0")
  case True
  with q2 show ?thesis by (simp add: round64_def)
next
  case False
  with x have pos: "0 < x" by simp
  then have pos2: "0 < 2 * x" by simp
  from q2 have fin2: "\<not> 2 powi 1024 \<le> round_abs (2 * x)" and q2v: "q2 = round_abs (2 * x)"
    by (simp_all add: round64_pos[OF pos2] split: if_splits)
  show ?thesis
  proof (cases "- 1074 \<le> ilog2 x - 52")
    case True
    have d: "round_abs (2 * x) = 2 * round_abs x" using pos True by (rule round_abs_double)
    from round_abs_nonneg[OF pos] have nn: "0 \<le> round_abs x" .
    from fin2 d nn have "\<not> 2 powi 1024 \<le> round_abs x" by simp
    then have "round64 x = Finite (round_abs x)" by (simp add: round64_pos[OF pos])
    with nn floor_double_rat[of "round_abs x"] show ?thesis
      by (simp add: q2v d)
  next
    case False
    then have s: "ilog2 x \<le> - 2" "ilog2 (2 * x) \<le> - 2"
      using pos by (simp_all add: ilog2_double)
    from round_abs_small[OF pos s(1)] have a: "round_abs x \<le> 1 / 2" .
    from round_abs_small[OF pos2 s(2)] have b: "round_abs (2 * x) \<le> 1 / 2" .
    have "round_abs x < 2 powi 1024"
    proof -
      have "(1::rat) / 2 < 2 powi 1024" by simp
      with a show ?thesis by simp
    qed
    then have r: "round64 x = Finite (round_abs x)" by (simp add: round64_pos[OF pos])
    have f1: "\<lfloor>round_abs x\<rfloor> = 0"
      using a round_abs_nonneg[OF pos] by (simp add: floor_eq_iff)
    have f2: "\<lfloor>round_abs (2 * x)\<rfloor> = 0"
      using b round_abs_nonneg[OF pos2] by (simp add: floor_eq_iff)
    from r f1 f2 round_abs_nonneg[OF pos] show ?thesis
      by (simp add: q2v)
  qed
qed

lemma new_max_nonce_halved:
  assumes t: "0 < t" and a: "0 \<le> hashes_done * scantime_v"
    and b2: "new_max_nonce hashes_done scantime_v (Finite (t / 2)) = Inr b2"
  shows "\<exists>av q. float_of_int (hashes_done * scantime_v) = Inr av \<and> round64 (av / t) = Finite q
           \<and> new_max_nonce hashes_done scantime_v (Finite t) = Inr \<lfloor>q\<rfloor>
           \<and> (b2 = 2 * \<lfloor>q\<rfloor> \<or> b2 = 2 * \<lfloor>q\<rfloor> + 1)"
proof -
  from b2 obtain av where av: "float_of_int (hashes_done * scantime_v) = Inr av"
    by (auto simp add: new_max_nonce_def int_truediv_float_def split: sum.splits)
  from float_of_int_sign[OF av a] have avn: "0 \<le> av" .
  let ?x = "av / t"
  have x: "0 \<le> ?x" using avn t by simp
  have eq: "av / (t / 2) = 2 * ?x" by simp
  have tz: "t / 2 \<noteq> 0" using t by simp
  have nm: "new_max_nonce hashes_done scantime_v (Finite (t / 2)) = py_int_of_float (round64 (2 * ?x))"
    unfolding new_max_nonce_def int_truediv_float_def av using tz
    by (simp only: sum.case float64.case if_False eq)
  obtain q2 where q2: "round64 (2 * ?x) = Finite q2" and b2v: "py_int_of_float (Finite q2) = Inr b2"
  proof (cases "round64 (2 * ?x)")
    case (Finite v)
    with nm b2 that show ?thesis by simp
  next
    case (Infinity s)
    with nm b2 show ?thesis by (simp add: py_int_of_float_def)
  qed
  from round64_Finite_sign[OF q2] x have q2n: "0 \<le> q2" by simp
  from halved_quotient[OF x q2] obtain q where
    q: "round64 ?x = Finite q" "0 \<le> q" "\<lfloor>q2\<rfloor> = 2 * \<lfloor>q\<rfloor> \<or> \<lfloor>q2\<rfloor> = 2 * \<lfloor>q\<rfloor> + 1" by blast
  have "new_max_nonce hashes_done scantime_v (Finite t) = Inr \<lfloor>q\<rfloor>"
    using t q(1,2) by (simp add: new_max_nonce_def int_truediv_float_def av py_int_of_float_def)
  moreover have "b2 = \<lfloor>q2\<rfloor>" using b2v q2n by (simp add: py_int_of_float_def)
  ultimately show ?thesis using av q(1,3) by simp
qed

lemma new_max_nonce_nonpositive:
  assumes np: "nonpositive td"
    and a: "0 \<le> hashes_done * scantime_v" "hashes_done * scantime_v < 2 ^ 1023"
  shows "case new_max_nonce hashes_done scantime_v td of
           Inl e \<Rightarrow> e = (if td = Finite 0 then ZeroDivisionError else OverflowError)
         | Inr b \<Rightarrow> td \<noteq> Finite 0 \<and> b \<le> 0"
proof -
  from float_of_int_ok[OF a] obtain av where av: "float_of_int (hashes_done * scantime_v) = Inr av" "0 \<le> av"
    by blast
  show ?thesis
  proof (cases td)
    case (Infinity s)
    then show ?thesis
      by (simp add: new_max_nonce_def int_truediv_float_def av py_int_of_float_def)
  next
    case (Finite d)
    with np have d: "d \<le> 0" by (simp add: nonpositive_def)
    show ?thesis
    proof (cases "d = 0")
      case True
      with Finite show ?thesis
        by (simp add: new_max_nonce_def int_truediv_float_def av)
    next
      case False
      with d have dn: "d < 0" by simp
      have x: "av / d \<le> 0" using av(2) dn by (simp add: divide_nonneg_neg)
      show ?thesis
      proof (cases "round64 (av / d)")
        case (Infinity s)
        with Finite False show ?thesis
          by (simp add: new_max_nonce_def int_truediv_float_def av py_int_of_float_def)
      next
        case (Finite y)
        from round64_Finite_sign[OF Finite] x have y: "y \<le> 0" by simp
        then have "(if 0 \<le> y then \<lfloor>y\<rfloor> else \<lceil>y\<rceil>) \<le> 0"
          by (simp add: floor_le_iff ceiling_le_iff)
        with Finite \<open>td = Finite d\<close> False show ?thesis
          by (simp add: new_max_nonce_def int_truediv_float_def av py_int_of_float_def)
      qed
    qed
  qed
qed

lemma round_half_even_of_int: "round_half_even (of_int m) = m"
  by (simp add: round_half_even_def)

lemma round_abs_at:
  assumes "0 < a" "2 powi k \<le> a" "a < 2 powi (k + 1)"
  shows "round_abs a = of_int (round_half_even (a / 2 powi max (k - 52) (- 1074))) * 2 powi max (k - 52) (- 1074)"
  using ilog2_unique[OF assms] by (simp add: round_abs_def float_exponent_def)

lemma round64_exact:
  assumes nz: "x \<noteq> 0" and lo: "2 powi k \<le> \<bar>x\<bar>" and hi: "\<bar>x\<bar> < 2 powi (k + 1)"
    and m: "\<bar>x\<bar> = of_int m * 2 powi max (k - 52) (- 1074)" and k: "k < 1024"
  shows "round64 x = Finite x"
proof -
  let ?e = "max (k - 52) (- 1074)"
  have pos: "0 < \<bar>x\<bar>" using nz by simp
  have p: "(2::rat) powi ?e \<noteq> 0" by simp
  have "\<bar>x\<bar> / 2 powi ?e = of_int m" by (subst m) simp
  then have "round_abs \<bar>x\<bar> = of_int m * 2 powi ?e"
    by (simp only: round_abs_at[OF pos lo hi] round_half_even_of_int)
  then have ra: "round_abs \<bar>x\<bar> = \<bar>x\<bar>" using m by simp
  have "(2::rat) powi (k + 1) \<le> 2 powi 1024" using k by (intro power_int_increasing) simp_all
  with hi have "\<not> 2 powi 1024 \<le> \<bar>x\<bar>" by simp
  moreover have "sgn x * \<bar>x\<bar> = x" by (simp add: sgn_if abs_if)
  ultimately show ?thesis using nz by (simp add: round64_def ra)
qed


lemma round64_nonpositive: "x \<le> 0 \<Longrightarrow> nonpositive (round64 x)"
  using round_abs_nonneg[of "\<bar>x\<bar>"]
  by (auto simp add: round64_def nonpositive_def sgn_if mult_le_0_iff)

section \<open>Lemmas about the submission and the work cycle\<close>

lemma bufreverse_nonce: "length nonce_bin = 4 \<Longrightarrow> bufreverse bo nonce_bin = Inr (rev nonce_bin)"
proof -
  assume l: "length nonce_bin = 4"
  have "words4 (nonce_bin @ []) = nonce_bin # words4 []"
    using l by (rule words4_append)
  then have w: "words4 nonce_bin = [nonce_bin]" by (simp add: words4_Nil)
  from l have "length nonce_bin mod 4 = 0" by simp
  then show ?thesis by (simp add: bufreverse_ok w)
qed

lemma length_bytes_hex: "length (bytes_hex b) = 2 * length b"
  by (induction b) (simp_all add: bytes_hex_def)

lemma submit_solution_eq:
  "length nonce_bin = 4 \<Longrightarrow>
   submit_solution bo (JStr s) nonce_bin =
     Inr (take 152 s @ bytes_hex (rev nonce_bin) @ take 96 (drop 160 s))"
  by (simp add: submit_solution_def bufreverse_nonce py_slice_def)

lemma getitem_obj:
  "py_getitem v k = Inr x \<Longrightarrow> \<exists>items. v = JObj items \<and> map_of items k = Some x"
  by (auto simp add: py_getitem_def split: json.splits option.splits)

lemma getitem_in: "py_getitem v k = Inr x \<Longrightarrow> py_in k v = Inr True"
  by (auto simp add: py_in_def dest: getitem_obj)

lemma iterate_fetched:
  assumes "rpc (fetch_reply w) = Inr work_v"
    and "py_getitem work_v ''data'' = Inr data"
    and "py_getitem work_v ''target'' = Inr target"
  shows "iterate H bo st w self = iterate_search H bo st w self data target"
proof -
  from getitem_obj[OF assms(2)] have nn: "work_v \<noteq> JNull" by auto
  have "fields_missing work_v = Inr False"
    by (simp add: fields_missing_def getitem_in[OF assms(2)] getitem_in[OF assms(3)])
  with nn assms show ?thesis
    by (simp add: iterate_def)
qed

text \<open>
  The fetch failures that \<^verbatim>\<open>iterate\<close> does recover from: no response object, a body
  that is JSON \<^verbatim>\<open>null\<close>, a reply with neither error nor result, and a result that lacks
  \<^verbatim>\<open>data\<close> or \<^verbatim>\<open>target\<close>. The miner is unchanged and the only effect is the pause.
\<close>

lemma iterate_backoff:
  assumes "fetch_reply w = No_response \<or> fetch_reply w = Body JNull
           \<or> (\<exists>items. fetch_reply w = Body (JObj items) \<and> map_of items ''error'' = None
                 \<and> map_of items ''result'' = None)
           \<or> (\<exists>items fields. fetch_reply w = Body (JObj items)
                 \<and> (map_of items ''error'' = None \<or> map_of items ''error'' = Some JNull)
                 \<and> map_of items ''result'' = Some (JObj fields)
                 \<and> (map_of fields ''data'' = None \<or> map_of fields ''target'' = None))"
  shows "iterate H bo st w self = Inr (self, [Sleep ERR_SLEEP])"
  using assms
  by (auto simp add: iterate_def rpc_error_or_result_def rpc_result_def py_in_def py_getitem_def
        fields_missing_def split: bool.splits)

section \<open>Concrete runs\<close>

text \<open>Both hash functions have 32-byte digests.\<close>

lemma sha256_round_length: "length s = 8 \<Longrightarrow> length (sha256_round s kw) = 8"
proof -
  assume "length s = 8"
  then obtain a b c d e f g h where s: "s = [a, b, c, d, e, f, g, h]"
    by (auto simp add: length_Suc_conv numeral_eq_Suc)
  obtain k w where kw: "kw = (k, w)" by (cases kw)
  show ?thesis by (simp add: s kw Let_def)
qed

lemma sha256_rounds_length: "length s = 8 \<Longrightarrow> length (foldl sha256_round s kws) = 8"
  by (induction kws arbitrary: s) (simp_all add: sha256_round_length)

lemma sha256_compress_length: "length hs = 8 \<Longrightarrow> length (sha256_compress hs block) = 8"
  by (simp add: sha256_compress_def sha256_rounds_length)

lemma sha256_blocks_length: "length hs = 8 \<Longrightarrow> length (sha256_blocks n hs b) = 8"
  by (induction n arbitrary: hs b) (simp_all add: sha256_compress_length)

lemma length_concat_u32_bytes: "length (concat (map u32_bytes ws)) = 4 * length ws"
  by (induction ws) (simp_all add: u32_bytes_def)

lemma sha256_length: "\<forall>x. length (sha256 x) = 32"
proof
  fix x
  have "length sha256_H0 = 8" by (simp add: sha256_H0_def)
  then show "length (sha256 x) = 32"
    by (simp add: sha256_def Let_def length_concat_u32_bytes sha256_blocks_length)
qed

lemma example_hash_length: "\<forall>x. length (example_hash x) = 32"
  by (simp add: example_hash_def)

text \<open>
  \<open>sha256\<close> on the test vector \<^verbatim>\<open>abc\<close> of FIPS 180-4, and the double digest of the
  all-zero 76-byte header with nonce 0, as \<^verbatim>\<open>hashlib\<close> computes them.
\<close>

lemma sha256_abc:
  "sha256 [0x61, 0x62, 0x63] =
     [0xba, 0x78, 0x16, 0xbf, 0x8f, 0x01, 0xcf, 0xea,
      0x41, 0x41, 0x40, 0xde, 0x5d, 0xae, 0x22, 0x23,
      0xb0, 0x03, 0x61, 0xa3, 0x96, 0x17, 0x7a, 0x9c,
      0xb4, 0x10, 0xff, 0x61, 0xf2, 0x00, 0x15, 0xad]"
  by code_simp

lemma sha256d_zero_header:
  "nonce_digest sha256 (replicate 76 0) 0 =
     [0x4b, 0xe7, 0x57, 0x0e, 0x8f, 0x70, 0xeb, 0x09,
      0x36, 0x40, 0xc8, 0x46, 0x82, 0x74, 0xba, 0x75,
      0x97, 0x45, 0xa7, 0xaa, 0x2b, 0x7d, 0x25, 0xab,
      0x1e, 0x04, 0x21, 0xb2, 0x59, 0x84, 0x50, 0x14]"
  by code_simp

lemma sha256d_zero_header_value:
  "hash_int LittleEndian
     [0x4b, 0xe7, 0x57, 0x0e, 0x8f, 0x70, 0xeb, 0x09,
      0x36, 0x40, 0xc8, 0x46, 0x82, 0x74, 0xba, 0x75,
      0x97, 0x45, 0xa7, 0xaa, 0x2b, 0x7d, 0x25, 0xab,
      0x1e, 0x04, 0x21, 0xb2, 0x59, 0x84, 0x50, 0x14] =
     Inr 9188518185559798194522836924258600097131917899116462896457545710416921356107"
  by code_simp

lemma sha256d_zero_header_filtered:
  "\<not> prefilter_pass (nonce_digest sha256 (replicate 76 0) 0)"
  by (simp add: sha256d_zero_header prefilter_pass_def)

text \<open>
  The work unit used below: a header text of 256 zero digits, with the targets 0, 1 and the
  value of the double digest above plus one.
\<close>

lemma zero_header:
  "work_header LittleEndian (JStr (replicate 256 CHR ''0'')) = Inr (replicate 76 0)"
  by code_simp

lemma zero_target: "work_target (JStr (replicate 64 CHR ''0'')) = Inr 0"
  by code_simp

lemma one_target: "work_target (JStr ''01'') = Inr 1"
  by code_simp

lemma easy_target:
  "work_target (JStr ''4ce7570e8f70eb093640c8468274ba759745a7aa2b7d25ab1e0421b259845014'') =
     Inr 9188518185559798194522836924258600097131917899116462896457545710416921356108"
  by code_simp

lemma example_digests:
  "prefilter_pass (nonce_digest example_hash (replicate 76 0) 2)"
  "below_target LittleEndian (nonce_digest example_hash (replicate 76 0) 2) 1"
  "\<not> prefilter_pass (nonce_digest example_hash (replicate 76 0) 0)"
  "\<not> prefilter_pass (nonce_digest example_hash (replicate 76 0) 1)"
  by code_simp+

lemma sha256_exhausts_zero_target:
  "work sha256 LittleEndian \<lparr>miner_id = 0, max_nonce = 1000000\<rparr>
         (JStr (replicate 256 CHR ''0'')) (JStr (replicate 64 CHR ''0'')) = Inr (1000000, None)"
proof -
  have "\<forall>m. 0 \<le> m \<and> m < max_nonce \<lparr>miner_id = 0, max_nonce = 1000000\<rparr> \<longrightarrow>
          \<not> (prefilter_pass (nonce_digest sha256 (replicate 76 0) m)
             \<and> below_target LittleEndian (nonce_digest sha256 (replicate 76 0) m) 0)"
    using never_below_zero[OF sha256_length] by simp
  from work_exhausted[OF sha256_length zero_header zero_target _ this] show ?thesis by simp
qed

lemma zero_work_fetched:
  "rpc (Body (JObj [(''result'', JObj [(''data'', JStr (replicate 256 CHR ''0'')),
                                      (''target'', JStr (replicate 64 CHR ''0''))]),
                    (''error'', JNull)]))
     = Inr (JObj [(''data'', JStr (replicate 256 CHR ''0'')),
                  (''target'', JStr (replicate 64 CHR ''0''))])"
  "py_getitem (JObj [(''data'', JStr (replicate 256 CHR ''0'')),
                     (''target'', JStr (replicate 64 CHR ''0''))]) ''data''
     = Inr (JStr (replicate 256 CHR ''0''))"
  "py_getitem (JObj [(''data'', JStr (replicate 256 CHR ''0'')),
                     (''target'', JStr (replicate 64 CHR ''0''))]) ''target''
     = Inr (JStr (replicate 64 CHR ''0''))"
  by (simp_all add: rpc_error_or_result_def rpc_result_def py_in_def py_getitem_def)

text \<open>The floats of the runs below.\<close>

lemma round64_30000000: "round64 30000000 = Finite 30000000"
  by (rule round64_exact[where k = 24 and m = "30000000 * 2 ^ 28"]) (simp_all add: power_int_minus_divide)

lemma round64_256: "round64 256 = Finite 256"
  by (rule round64_exact[where k = 8 and m = "2 ^ 52"]) (simp_all add: power_int_minus_divide)

lemma round64_128: "round64 128 = Finite 128"
  by (rule round64_exact[where k = 7 and m = "2 ^ 52"]) (simp_all add: power_int_minus_divide)

lemma round64_117187_5: "round64 (234375 / 2) = Finite (234375 / 2)"
  by (rule round64_exact[where k = 16 and m = "234375 * 2 ^ 35"]) (simp_all add: power_int_minus_divide)

lemma round64_234375: "round64 234375 = Finite 234375"
  by (rule round64_exact[where k = 17 and m = "234375 * 2 ^ 35"]) (simp_all add: power_int_minus_divide)

lemma new_max_nonce_256: "new_max_nonce 1000000 30 (Finite 256) = Inr 117187"
proof -
  have "\<lfloor>(234375::rat) / 2\<rfloor> = 117187" by (rule floor_unique) simp_all
  then show ?thesis
    by (simp add: new_max_nonce_def int_truediv_float_def float_of_int_def round64_30000000 round64_117187_5 py_int_of_float_def)
qed

lemma new_max_nonce_128: "new_max_nonce 1000000 30 (Finite 128) = Inr 234375"
  by (simp add: new_max_nonce_def int_truediv_float_def float_of_int_def round64_30000000 round64_234375 py_int_of_float_def)

lemma round64_minus_1: "round64 (- 1) = Finite (- 1)"
  by (rule round64_exact[where k = 0 and m = "2 ^ 52"]) (simp_all add: power_int_minus_divide)

lemma round64_minus_2: "round64 (- 2) = Finite (- 2)"
  by (rule round64_exact[where k = 1 and m = "2 ^ 52"]) (simp_all add: power_int_minus_divide)

lemma round64_minus_30000000: "round64 (- 30000000) = Finite (- 30000000)"
  by (rule round64_exact[where k = 24 and m = "30000000 * 2 ^ 28"]) (simp_all add: power_int_minus_divide)

lemma round64_minus_15000000: "round64 (- 15000000) = Finite (- 15000000)"
  by (rule round64_exact[where k = 23 and m = "15000000 * 2 ^ 29"]) (simp_all add: power_int_minus_divide)

lemma round64_minus_least: "round64 (- (1 / 2 ^ 1074)) = Finite (- (1 / 2 ^ 1074))"
  by (rule round64_exact[where k = "- 1074" and m = 1]) (simp_all add: power_int_minus_divide)

lemma round64_90: "round64 90 = Finite 90"
  by (rule round64_exact[where k = 6 and m = "90 * 2 ^ 46"]) (simp_all add: power_int_minus_divide)

lemma round64_tenth: "round64 (3602879701896397 / 36028797018963968) = Finite (3602879701896397 / 36028797018963968)"
  by (rule round64_exact[where k = "- 4" and m = 7205759403792794]) (simp_all add: power_int_minus_divide)

lemma round_abs_overflowing: "round_abs (30000000 * 2 ^ 1074) = 30000000 * 2 ^ 1074"
proof -
  have "round_abs (30000000 * 2 ^ 1074) =
      of_int (round_half_even (30000000 * 2 ^ 1074 / 2 powi max (1098 - 52) (- 1074))) * 2 powi max (1098 - 52) (- 1074)"
    by (rule round_abs_at) simp_all
  also have "(30000000 * 2 ^ 1074 :: rat) / 2 powi max (1098 - 52) (- 1074) = of_int (30000000 * 2 ^ 28)"
    by simp
  finally show ?thesis by (simp only: round_half_even_of_int) simp
qed

lemma round64_overflowing: "round64 (- (30000000 * 2 ^ 1074)) = Infinity True"
  using round_abs_overflowing by (simp add: round64_def)

lemma round_abs_quotient_tenth: "round_abs (3242591731706757120 / 3602879701896397) = 900"
proof -
  have "round_abs (3242591731706757120 / 3602879701896397) =
      of_int (round_half_even (3242591731706757120 / 3602879701896397 / 2 powi max (9 - 52) (- 1074))) * 2 powi max (9 - 52) (- 1074)"
    by (rule round_abs_at) simp_all
  moreover have "\<lfloor>(3242591731706757120 :: rat) / 3602879701896397 / 2 powi max (9 - 52) (- 1074)\<rfloor> = 7916483719987199"
    by (rule floor_unique) (simp_all add: power_int_minus_divide)
  then have "round_half_even (3242591731706757120 / 3602879701896397 / 2 powi max (9 - 52) (- 1074)) = 7916483719987200"
    unfolding round_half_even_def Let_def by (simp add: power_int_minus_divide)
  ultimately show ?thesis by (simp add: power_int_minus_divide)
qed

lemma round64_quotient_tenth: "round64 (3242591731706757120 / 3602879701896397) = Finite 900"
  using round_abs_quotient_tenth by (simp add: round64_def)

lemma floor_quotient_tenth: "\<lfloor>(3242591731706757120 :: rat) / 3602879701896397\<rfloor> = 899"
  by (rule floor_unique) simp_all

lemma new_max_nonce_tenth: "new_max_nonce 3 30 (Finite (3602879701896397 / 36028797018963968)) = Inr 900"
  by (simp add: new_max_nonce_def int_truediv_float_def float_of_int_def round64_90 round64_quotient_tenth py_int_of_float_def)

lemma new_max_nonce_minus_1: "new_max_nonce 1000000 30 (Finite (- 1)) = Inr (- 30000000)"
  by (simp add: new_max_nonce_def int_truediv_float_def float_of_int_def round64_30000000 round64_minus_30000000 py_int_of_float_def)

lemma new_max_nonce_minus_2: "new_max_nonce 1000000 30 (Finite (- 2)) = Inr (- 15000000)"
  by (simp add: new_max_nonce_def int_truediv_float_def float_of_int_def round64_30000000 round64_minus_15000000 py_int_of_float_def)

lemma new_max_nonce_minus_least: "new_max_nonce 1000000 30 (Finite (- (1 / 2 ^ 1074))) = Inl OverflowError"
  using round64_overflowing by (simp add: new_max_nonce_def int_truediv_float_def float_of_int_def round64_30000000 py_int_of_float_def)

lemma float_sub_0_1: "float_sub 0 1 = Finite (- 1)" by (simp add: float_sub_def round64_minus_1)
lemma float_sub_5_5: "float_sub 5 5 = Finite 0" by (simp add: float_sub_def round64_def)
lemma float_sub_3_5: "float_sub 3 5 = Finite (- 2)" by (simp add: float_sub_def round64_minus_2)
lemma float_sub_0_least: "float_sub 0 (1 / 2 ^ 1074) = Finite (- (1 / 2 ^ 1074))" using round64_minus_least by (simp add: float_sub_def)

lemma new_max_nonce_zero: "new_max_nonce 1000000 30 (Finite 0) = Inl ZeroDivisionError"
  by (simp add: new_max_nonce_def int_truediv_float_def float_of_int_def round64_30000000)

section \<open>The claims\<close>

subsection \<open>C1: the search returns the qualifying nonce\<close>

text \<open>
  Claim C1 says: for every nonce below the bound whose double digest, after
  \<^verbatim>\<open>bufreverse\<close> and \<^verbatim>\<open>wordreverse\<close>, reads as an integer below the target, the search
  returns that nonce with \<open>attempts = nonce + 1\<close>, and the pre-filter never keeps such a nonce
  from the comparison.

  The program does otherwise in two ways. The pre-filter of line 129 comes before the
  comparison, and a digest whose last four bytes are not all zero is passed over whatever its
  value: with the all-zero header, SHA-256, nonce 0 and the target set to the value of that
  nonce's digest plus one, the value is below the target and the search over
  \<^verbatim>\<open>range(1)\<close> returns \<open>(1, None)\<close>. And the loop returns at the first nonce that passes
  both tests: with \<open>example_hash\<close>, the nonces 2 and 258 both pass, and the search returns
  nonce 2.
\<close>

theorem search_returns_any_nonce_below_target_counterexample:
  "work_header LittleEndian (JStr (replicate 256 CHR ''0'')) = Inr (replicate 76 0)
   \<and> work_target (JStr ''4ce7570e8f70eb093640c8468274ba759745a7aa2b7d25ab1e0421b259845014'') =
       Inr 9188518185559798194522836924258600097131917899116462896457545710416921356108
   \<and> (0 :: int) < max_nonce \<lparr>miner_id = 0, max_nonce = 1\<rparr>
   \<and> below_target LittleEndian (nonce_digest sha256 (replicate 76 0) 0)
         9188518185559798194522836924258600097131917899116462896457545710416921356108
   \<and> work sha256 LittleEndian \<lparr>miner_id = 0, max_nonce = 1\<rparr>
         (JStr (replicate 256 CHR ''0''))
         (JStr ''4ce7570e8f70eb093640c8468274ba759745a7aa2b7d25ab1e0421b259845014'') = Inr (1, None)
   \<and> work sha256 LittleEndian \<lparr>miner_id = 0, max_nonce = 1\<rparr>
         (JStr (replicate 256 CHR ''0''))
         (JStr ''4ce7570e8f70eb093640c8468274ba759745a7aa2b7d25ab1e0421b259845014'') \<noteq> Inr (0 + 1, Some (le32 0))
   \<and> (258 :: int) < max_nonce \<lparr>miner_id = 0, max_nonce = 300\<rparr>
   \<and> below_target LittleEndian (nonce_digest example_hash (replicate 76 0) 258) 1
   \<and> work example_hash LittleEndian \<lparr>miner_id = 0, max_nonce = 300\<rparr>
         (JStr (replicate 256 CHR ''0'')) (JStr ''01'') = Inr (3, Some [2, 0, 0, 0])
   \<and> work example_hash LittleEndian \<lparr>miner_id = 0, max_nonce = 300\<rparr>
         (JStr (replicate 256 CHR ''0'')) (JStr ''01'') \<noteq> Inr (258 + 1, Some (le32 258))"
proof -
  have second: "below_target LittleEndian (nonce_digest example_hash (replicate 76 0) 258) 1"
    by code_simp
  have found: "work example_hash LittleEndian \<lparr>miner_id = 0, max_nonce = 300\<rparr>
         (JStr (replicate 256 CHR ''0'')) (JStr ''01'') = Inr (3, Some [2, 0, 0, 0])"
    by code_simp
  have below: "below_target LittleEndian (nonce_digest sha256 (replicate 76 0) 0)
         9188518185559798194522836924258600097131917899116462896457545710416921356108"
    by (simp add: below_target_def sha256d_zero_header sha256d_zero_header_value)
  have none: "\<forall>m. 0 \<le> m \<and> m < max_nonce \<lparr>miner_id = 0, max_nonce = 1\<rparr> \<longrightarrow>
          \<not> (prefilter_pass (nonce_digest sha256 (replicate 76 0) m)
             \<and> below_target LittleEndian (nonce_digest sha256 (replicate 76 0) m)
                 9188518185559798194522836924258600097131917899116462896457545710416921356108)"
  proof (intro allI impI)
    fix m :: int
    assume "0 \<le> m \<and> m < max_nonce \<lparr>miner_id = 0, max_nonce = 1\<rparr>"
    then have "m = 0" by simp
    then show "\<not> (prefilter_pass (nonce_digest sha256 (replicate 76 0) m)
             \<and> below_target LittleEndian (nonce_digest sha256 (replicate 76 0) m)
                 9188518185559798194522836924258600097131917899116462896457545710416921356108)"
      using sha256d_zero_header_filtered by simp
  qed
  have w: "work sha256 LittleEndian \<lparr>miner_id = 0, max_nonce = 1\<rparr>
         (JStr (replicate 256 CHR ''0''))
         (JStr ''4ce7570e8f70eb093640c8468274ba759745a7aa2b7d25ab1e0421b259845014'') = Inr (1, None)"
    using work_exhausted[OF sha256_length zero_header easy_target _ none] by simp
  from zero_header easy_target below w second found show ?thesis by simp
qed

text \<open>
  Claim C1, amended: let the hash function have 32-byte digests and let the header and the
  target decode. If \<open>0 \<le> n < max_nonce \<le> 2^32\<close>, the digest of nonce \<open>n\<close> passes the
  pre-filter (its last four bytes are zero) and reads as an integer below the target, and no
  smaller nonce has both properties, then \<^verbatim>\<open>work\<close> returns \<open>n + 1\<close> and the four bytes of
  \<open>n\<close>, least significant first.
\<close>

theorem work_returns_first_proof_of_work:
  assumes H32: "\<forall>x. length (H x) = 32"
    and hdr: "work_header bo datastr = Inr blk_hdr"
    and tgt: "work_target targetstr = Inr target"
    and n: "0 \<le> n" "n < max_nonce self"
    and bound: "max_nonce self \<le> 4294967296"
    and pass: "prefilter_pass (nonce_digest H blk_hdr n)"
    and below: "below_target bo (nonce_digest H blk_hdr n) target"
    and first: "\<forall>m. 0 \<le> m \<and> m < n \<longrightarrow>
                  \<not> (prefilter_pass (nonce_digest H blk_hdr m)
                     \<and> below_target bo (nonce_digest H blk_hdr m) target)"
  shows "work H bo self datastr targetstr = Inr (n + 1, Some (le32 n))"
proof -
  have split: "[0..max_nonce self - 1] = [0..n - 1] @ n # [n + 1..max_nonce self - 1]"
    using n by (intro upto_split3) simp_all
  have rng: "\<forall>m \<in> set [0..n - 1]. 0 \<le> m \<and> m < 4294967296"
    using n bound by auto
  have none: "\<forall>m \<in> set [0..n - 1]. \<not> (prefilter_pass (nonce_digest H blk_hdr m)
                                  \<and> below_target bo (nonce_digest H blk_hdr m) target)"
    using first by simp
  have n32: "n < 4294967296" using n bound by simp
  show ?thesis
    by (simp only: work_unfold[OF hdr tgt] split
        work_loop_finds[OF H32 rng none n(1) n32 pass below])
qed

text \<open>The amended claim at nonce 2 of the all-zero header under \<open>example_hash\<close>.\<close>

theorem work_returns_first_proof_of_work_witness:
  "work_header LittleEndian (JStr (replicate 256 CHR ''0'')) = Inr (replicate 76 0)
   \<and> work_target (JStr ''01'') = Inr 1
   \<and> prefilter_pass (nonce_digest example_hash (replicate 76 0) 2)
   \<and> below_target LittleEndian (nonce_digest example_hash (replicate 76 0) 2) 1
   \<and> \<not> prefilter_pass (nonce_digest example_hash (replicate 76 0) 0)
   \<and> \<not> prefilter_pass (nonce_digest example_hash (replicate 76 0) 1)
   \<and> work example_hash LittleEndian \<lparr>miner_id = 0, max_nonce = 5\<rparr>
         (JStr (replicate 256 CHR ''0'')) (JStr ''01'') = Inr (3, Some [2, 0, 0, 0])"
proof -
  have first: "\<forall>m. 0 \<le> m \<and> m < 2 \<longrightarrow>
      \<not> (prefilter_pass (nonce_digest example_hash (replicate 76 0) m)
         \<and> below_target LittleEndian (nonce_digest example_hash (replicate 76 0) m) 1)"
  proof (intro allI impI)
    fix m :: int assume "0 \<le> m \<and> m < 2"
    then have "m = 0 \<or> m = 1" by linarith
    then show "\<not> (prefilter_pass (nonce_digest example_hash (replicate 76 0) m)
         \<and> below_target LittleEndian (nonce_digest example_hash (replicate 76 0) m) 1)"
      using example_digests(3,4) by auto
  qed
  have le: "le32 2 = [2, 0, 0, 0]" by (simp add: le32_def)
  have "work example_hash LittleEndian \<lparr>miner_id = 0, max_nonce = 5\<rparr>
         (JStr (replicate 256 CHR ''0'')) (JStr ''01'') = Inr (2 + 1, Some (le32 2))"
    using example_hash_length zero_header one_target _ _ _ example_digests(1,2) first
    by (rule work_returns_first_proof_of_work) simp_all
  with zero_header one_target example_digests le show ?thesis by simp
qed

subsection \<open>C2: a search bound of zero\<close>

text \<open>
  Claim C2 says that the search with bound 0 returns \<open>attempts = 0\<close> and no nonce, without
  raising. In the program the loop over \<^verbatim>\<open>range(0)\<close> never binds \<^verbatim>\<open>nonce\<close>, and
  line 144 reads it: for every header and target that decode, and every bound that is zero
  or negative, \<^verbatim>\<open>work\<close> raises \<^verbatim>\<open>UnboundLocalError\<close>.
\<close>

theorem work_empty_range_raises:
  assumes "work_header bo datastr = Inr blk_hdr"
    and "work_target targetstr = Inr target"
    and "max_nonce self \<le> 0"
  shows "work H bo self datastr targetstr = Inl UnboundLocalError"
  using assms by (simp add: work_unfold)

text \<open>The all-zero header with target 1 and \<^verbatim>\<open>max_nonce = 0\<close>.\<close>

theorem work_empty_range_raises_witness:
  "work_header LittleEndian (JStr (replicate 256 CHR ''0'')) = Inr (replicate 76 0)
   \<and> work_target (JStr ''01'') = Inr 1
   \<and> max_nonce \<lparr>miner_id = 0, max_nonce = 0\<rparr> \<le> 0
   \<and> work sha256 LittleEndian \<lparr>miner_id = 0, max_nonce = 0\<rparr>
         (JStr (replicate 256 CHR ''0'')) (JStr ''01'') = Inl UnboundLocalError"
proof -
  have "work sha256 LittleEndian \<lparr>miner_id = 0, max_nonce = 0\<rparr>
         (JStr (replicate 256 CHR ''0'')) (JStr ''01'') = Inl UnboundLocalError"
    using zero_header one_target by (rule work_empty_range_raises) simp
  with zero_header one_target show ?thesis by simp
qed

subsection \<open>C3: both transforms are involutions\<close>

text \<open>
  Claim C3: for every buffer whose length is a multiple of 4, \<^verbatim>\<open>bufreverse\<close> applied
  twice gives the buffer back (neither application raises), and so does
  \<^verbatim>\<open>wordreverse\<close> applied twice. It holds in either byte order of the host.
\<close>

theorem reversals_are_involutions:
  assumes "length buf mod 4 = 0"
  shows "(case bufreverse bo buf of Inl e \<Rightarrow> False | Inr b \<Rightarrow> bufreverse bo b = Inr buf)
         \<and> wordreverse (wordreverse buf) = buf"
  using assms by (simp add: bufreverse_ok bufreverse_twice wordreverse_twice)

text \<open>Claim C3 on an 8-byte buffer.\<close>

theorem reversals_are_involutions_witness:
  "length [1, 2, 3, 4, 5, 6, 7, 8 :: byte] mod 4 = 0
   \<and> bufreverse LittleEndian [1, 2, 3, 4, 5, 6, 7, 8] = Inr [4, 3, 2, 1, 8, 7, 6, 5]
   \<and> bufreverse LittleEndian [4, 3, 2, 1, 8, 7, 6, 5] = Inr [1, 2, 3, 4, 5, 6, 7, 8]
   \<and> wordreverse [1, 2, 3, 4, 5, 6, 7, 8] = [5, 6, 7, 8, 1, 2, 3, 4]
   \<and> wordreverse (wordreverse [1, 2, 3, 4, 5, 6, 7, 8]) = [1, 2, 3, 4, 5, 6, 7, 8]"
proof -
  have a: "bufreverse LittleEndian [1, 2, 3, 4, 5, 6, 7, 8] = Inr [4, 3, 2, 1, 8, 7, 6, 5]"
    by code_simp
  have b: "wordreverse [1, 2, 3, 4, 5, 6, 7, 8] = [5, 6, 7, 8, 1, 2, 3, 4]"
    by code_simp
  from reversals_are_involutions[of "[1, 2, 3, 4, 5, 6, 7, 8]" LittleEndian] a b
  show ?thesis by simp
qed

subsection \<open>C4: a target of zero\<close>

text \<open>
  Claim C4 says that with a target of zero and any small bound the search exhausts the bound
  and returns \<open>attempts = nonce_bound\<close> and no nonce. For a hash function with 32-byte
  digests and a bound from 1 to \<open>2^32\<close> the program does so; at the bound 0 (and below) it
  raises \<^verbatim>\<open>UnboundLocalError\<close>, by the defect of claim C2.
\<close>

theorem work_zero_target:
  assumes H32: "\<forall>x. length (H x) = 32"
    and hdr: "work_header bo datastr = Inr blk_hdr"
    and tgt: "work_target targetstr = Inr 0"
    and bound: "max_nonce self \<le> 4294967296"
  shows "work H bo self datastr targetstr =
           (if max_nonce self \<le> 0 then Inl UnboundLocalError
            else Inr (max_nonce self, None))"
  using H32 hdr tgt bound
proof (rule work_exhausted)
  show "\<forall>m. 0 \<le> m \<and> m < max_nonce self \<longrightarrow>
          \<not> (prefilter_pass (nonce_digest H blk_hdr m)
             \<and> below_target bo (nonce_digest H blk_hdr m) 0)"
    using never_below_zero[OF H32] by simp
qed

text \<open>The all-zero header under SHA-256 with target zero, at the bounds 0 and 1000000.\<close>

theorem work_zero_target_witness:
  "work_target (JStr (replicate 64 CHR ''0'')) = Inr 0
   \<and> work sha256 LittleEndian \<lparr>miner_id = 0, max_nonce = 0\<rparr>
         (JStr (replicate 256 CHR ''0'')) (JStr (replicate 64 CHR ''0'')) = Inl UnboundLocalError
   \<and> work sha256 LittleEndian \<lparr>miner_id = 0, max_nonce = 1000000\<rparr>
         (JStr (replicate 256 CHR ''0'')) (JStr (replicate 64 CHR ''0'')) = Inr (1000000, None)"
proof -
  have a: "work sha256 LittleEndian \<lparr>miner_id = 0, max_nonce = 0\<rparr>
         (JStr (replicate 256 CHR ''0'')) (JStr (replicate 64 CHR ''0'')) = Inl UnboundLocalError"
    using work_zero_target[OF sha256_length zero_header zero_target,
        of "\<lparr>miner_id = 0, max_nonce = 0\<rparr>"] by simp
  have b: "work sha256 LittleEndian \<lparr>miner_id = 0, max_nonce = 1000000\<rparr>
         (JStr (replicate 256 CHR ''0'')) (JStr (replicate 64 CHR ''0'')) = Inr (1000000, None)"
    using work_zero_target[OF sha256_length zero_header zero_target,
        of "\<lparr>miner_id = 0, max_nonce = 1000000\<rparr>"] by simp
  from a b zero_target show ?thesis by simp
qed

subsection \<open>C5: a non-positive elapsed time\<close>

text \<open>
  Claim C5 says that a cycle whose elapsed time is zero or negative skips the recalibration
  and keeps the search bound. The program has no such guard. A cycle over the all-zero
  header with target zero, started with \<^verbatim>\<open>max_nonce = 1000000\<close> and
  \<^verbatim>\<open>scantime = 30\<close>, whose clock readings are 1 and then 0, ends with
  \<^verbatim>\<open>max_nonce = -30000000\<close>.
\<close>

theorem iterate_nonpositive_elapsed_counterexample:
  "iterate sha256 LittleEndian \<lparr>scantime = 30, hashmeter = 0\<rparr>
     \<lparr>fetch_reply = Body (JObj [(''result'', JObj [(''data'', JStr (replicate 256 CHR ''0'')),
                                                  (''target'', JStr (replicate 64 CHR ''0''))]),
                                (''error'', JNull)]),
      time_start = 1, time_end = 0, submit_reply = No_response\<rparr>
     \<lparr>miner_id = 0, max_nonce = 1000000\<rparr>
   = Inr (\<lparr>miner_id = 0, max_nonce = - 30000000\<rparr>, [])"
proof -
  let ?w = "\<lparr>fetch_reply = Body (JObj [(''result'', JObj [(''data'', JStr (replicate 256 CHR ''0'')),
                                                  (''target'', JStr (replicate 64 CHR ''0''))]),
                                (''error'', JNull)]),
      time_start = 1, time_end = 0, submit_reply = No_response\<rparr>"
  have "iterate sha256 LittleEndian \<lparr>scantime = 30, hashmeter = 0\<rparr> ?w \<lparr>miner_id = 0, max_nonce = 1000000\<rparr>
      = iterate_search sha256 LittleEndian \<lparr>scantime = 30, hashmeter = 0\<rparr> ?w
          \<lparr>miner_id = 0, max_nonce = 1000000\<rparr>
          (JStr (replicate 256 CHR ''0'')) (JStr (replicate 64 CHR ''0''))"
    by (rule iterate_fetched[OF _ zero_work_fetched(2,3)]) (simp add: rpc_error_or_result_def rpc_result_def py_in_def py_getitem_def)
  then show ?thesis
    by (simp add: iterate_search_def sha256_exhausts_zero_target float_sub_0_1
          new_max_nonce_minus_1 clamp_max_nonce_def)
qed

text \<open>
  Claim C5, amended: let the fetch give a work unit with \<^verbatim>\<open>data\<close> and \<^verbatim>\<open>target\<close>, let
  the search return \<open>hashes_done\<close> attempts, let \<open>hashes_done * scantime\<close> be non-negative
  and below \<open>2 ^ 1023\<close>, and let the elapsed time \<open>td\<close>, the float
  \<^verbatim>\<open>time_end - time_start\<close>, be zero or negative. Then \<^verbatim>\<open>iterate\<close> recalibrates as in
  any other cycle: it raises what line 170 raises, and otherwise installs the bound of
  line 170 (the clamp leaves it as it is) and goes on to the submission. Line 170 raises
  \<^verbatim>\<open>ZeroDivisionError\<close> when \<open>td\<close> is zero; when \<open>td\<close> is negative it either raises
  \<^verbatim>\<open>OverflowError\<close> (the quotient is an infinity) or gives a bound that is zero or
  negative.
\<close>

theorem iterate_nonpositive_elapsed:
  assumes fetch: "rpc (fetch_reply w) = Inr work_v"
    and data: "py_getitem work_v ''data'' = Inr data"
    and target: "py_getitem work_v ''target'' = Inr target"
    and search: "work H bo self data target = Inr (hashes_done, nonce_bin)"
    and elapsed: "float_sub (time_end w) (time_start w) = td"
    and nonpos: "nonpositive td"
    and nonneg: "0 \<le> hashes_done * scantime st"
    and bounded: "hashes_done * scantime st < 2 ^ 1023"
  shows "iterate H bo st w self =
           (case new_max_nonce hashes_done (scantime st) td of
              Inl e \<Rightarrow> Inl e
            | Inr b \<Rightarrow>
                (case nonce_bin of
                   None \<Rightarrow> Inr (self\<lparr>max_nonce := b\<rparr>, [])
                 | Some nb \<Rightarrow>
                     (case submit_work bo (submit_reply w) data nb of
                        Inl e \<Rightarrow> Inl e
                      | Inr ev \<Rightarrow> Inr (self\<lparr>max_nonce := b\<rparr>, [ev]))))
         \<and> (case new_max_nonce hashes_done (scantime st) td of
               Inl e \<Rightarrow> e = (if td = Finite 0 then ZeroDivisionError else OverflowError)
             | Inr b \<Rightarrow> td \<noteq> Finite 0 \<and> b \<le> 0)"
proof -
  have it: "iterate H bo st w self = iterate_search H bo st w self data target"
    using fetch data target by (rule iterate_fetched)
  from nonpos nonneg bounded
  have sign: "case new_max_nonce hashes_done (scantime st) td of
                Inl e \<Rightarrow> e = (if td = Finite 0 then ZeroDivisionError else OverflowError)
              | Inr b \<Rightarrow> td \<noteq> Finite 0 \<and> b \<le> 0"
    by (rule new_max_nonce_nonpositive)
  show ?thesis
  proof (cases "new_max_nonce hashes_done (scantime st) td")
    case (Inl e)
    with sign show ?thesis
      by (simp add: it iterate_search_def search elapsed)
  next
    case (Inr b)
    with sign have "b \<le> 0" by simp
    then have "clamp_max_nonce b = b" by (simp add: clamp_max_nonce_def)
    with Inr sign show ?thesis
      by (simp add: it iterate_search_def search elapsed Let_def)
  qed
qed

text \<open>
  The amended claim on the same work unit, at three pairs of clock readings: 5 and 5 (the
  division raises), 5 and 3 (the bound is \<open>-15000000\<close>), and \<open>2 ^ -1074\<close> and 0 (the
  quotient is an infinity).
\<close>

theorem iterate_nonpositive_elapsed_witness:
  "work sha256 LittleEndian \<lparr>miner_id = 0, max_nonce = 1000000\<rparr>
         (JStr (replicate 256 CHR ''0'')) (JStr (replicate 64 CHR ''0'')) = Inr (1000000, None)
   \<and> float_sub 5 5 = Finite 0
   \<and> iterate sha256 LittleEndian \<lparr>scantime = 30, hashmeter = 0\<rparr>
     \<lparr>fetch_reply = Body (JObj [(''result'', JObj [(''data'', JStr (replicate 256 CHR ''0'')),
                                                  (''target'', JStr (replicate 64 CHR ''0''))]),
                                (''error'', JNull)]),
      time_start = 5, time_end = 5, submit_reply = No_response\<rparr>
     \<lparr>miner_id = 0, max_nonce = 1000000\<rparr>
   = Inl ZeroDivisionError
   \<and> float_sub 3 5 = Finite (- 2)
   \<and> iterate sha256 LittleEndian \<lparr>scantime = 30, hashmeter = 0\<rparr>
     \<lparr>fetch_reply = Body (JObj [(''result'', JObj [(''data'', JStr (replicate 256 CHR ''0'')),
                                                  (''target'', JStr (replicate 64 CHR ''0''))]),
                                (''error'', JNull)]),
      time_start = 5, time_end = 3, submit_reply = No_response\<rparr>
     \<lparr>miner_id = 0, max_nonce = 1000000\<rparr>
   = Inr (\<lparr>miner_id = 0, max_nonce = - 15000000\<rparr>, [])
   \<and> float_sub 0 (1 / 2 ^ 1074) = Finite (- (1 / 2 ^ 1074))
   \<and> iterate sha256 LittleEndian \<lparr>scantime = 30, hashmeter = 0\<rparr>
     \<lparr>fetch_reply = Body (JObj [(''result'', JObj [(''data'', JStr (replicate 256 CHR ''0'')),
                                                  (''target'', JStr (replicate 64 CHR ''0''))]),
                                (''error'', JNull)]),
      time_start = 1 / 2 ^ 1074, time_end = 0, submit_reply = No_response\<rparr>
     \<lparr>miner_id = 0, max_nonce = 1000000\<rparr>
   = Inl OverflowError"
proof -
  let ?f = "Body (JObj [(''result'', JObj [(''data'', JStr (replicate 256 CHR ''0'')),
                                                  (''target'', JStr (replicate 64 CHR ''0''))]),
                                (''error'', JNull)])"
  let ?st = "\<lparr>scantime = 30, hashmeter = 0\<rparr>"
  let ?m = "\<lparr>miner_id = 0, max_nonce = 1000000\<rparr>"
  have a: "iterate sha256 LittleEndian ?st
      \<lparr>fetch_reply = ?f, time_start = 5, time_end = 5, submit_reply = No_response\<rparr> ?m
      = Inl ZeroDivisionError"
    using iterate_nonpositive_elapsed[OF _ zero_work_fetched(2,3) sha256_exhausts_zero_target,
        of "\<lparr>fetch_reply = ?f, time_start = 5, time_end = 5, submit_reply = No_response\<rparr>"
           "Finite 0" ?st]
    by (simp add: rpc_error_or_result_def rpc_result_def py_in_def py_getitem_def
          float_sub_5_5 nonpositive_def new_max_nonce_zero)
  have b: "iterate sha256 LittleEndian ?st
      \<lparr>fetch_reply = ?f, time_start = 5, time_end = 3, submit_reply = No_response\<rparr> ?m
      = Inr (\<lparr>miner_id = 0, max_nonce = - 15000000\<rparr>, [])"
    using iterate_nonpositive_elapsed[OF _ zero_work_fetched(2,3) sha256_exhausts_zero_target,
        of "\<lparr>fetch_reply = ?f, time_start = 5, time_end = 3, submit_reply = No_response\<rparr>"
           "Finite (- 2)" ?st]
    by (simp add: rpc_error_or_result_def rpc_result_def py_in_def py_getitem_def
          float_sub_3_5 nonpositive_def new_max_nonce_minus_2)
  have c: "iterate sha256 LittleEndian ?st
      \<lparr>fetch_reply = ?f, time_start = 1 / 2 ^ 1074, time_end = 0, submit_reply = No_response\<rparr> ?m
      = Inl OverflowError"
    using iterate_nonpositive_elapsed[OF _ zero_work_fetched(2,3) sha256_exhausts_zero_target,
        of "\<lparr>fetch_reply = ?f, time_start = 1 / 2 ^ 1074, time_end = 0, submit_reply = No_response\<rparr>"
           "Finite (- (1 / 2 ^ 1074))" ?st]
      float_sub_0_least new_max_nonce_minus_least
    by (simp add: rpc_error_or_result_def rpc_result_def py_in_def py_getitem_def nonpositive_def)
  from a b c sha256_exhausts_zero_target float_sub_5_5 float_sub_3_5 float_sub_0_least
  show ?thesis by simp
qed

subsection \<open>C6: the submission splice\<close>

text \<open>
  Claim C6 says that for every header text of length \<open>L \<ge> 160\<close> the solution has length
  \<open>L\<close> and differs from the header text only at the offsets 152 to 159. The program takes
  \<^verbatim>\<open>original_data[160:256]\<close>: a header text of 257 characters gives a solution of 256.
\<close>

theorem submit_solution_splice_counterexample:
  "submit_solution LittleEndian (JStr (replicate 257 CHR ''0'')) [0, 0, 0, 0]
     = Inr (replicate 256 CHR ''0'')
   \<and> length (replicate 256 CHR ''0'') \<noteq> length (replicate 257 CHR ''0'')"
proof -
  have "bytes_hex (rev [0, 0, 0, 0]) = replicate 8 CHR ''0''" by code_simp
  then have "submit_solution LittleEndian (JStr (replicate 257 CHR ''0'')) [0, 0, 0, 0]
     = Inr (replicate 152 CHR ''0'' @ replicate 8 CHR ''0'' @ replicate 96 CHR ''0'')"
    by (simp add: submit_solution_eq)
  then show ?thesis
    by (simp add: replicate_add[symmetric])
qed

text \<open>
  Claim C6, amended: for a 4-byte nonce and a header text of length \<open>L \<ge> 160\<close>, the
  solution has length \<open>min L 256\<close>, agrees with the header text at every offset below its
  length outside 152 to 159, and holds at the offsets 152 to 159 the hex digits of the
  reversed nonce. (For \<open>L \<le> 256\<close> that is claim C6; characters from offset 256 on are
  dropped.)
\<close>

theorem submit_solution_splice:
  assumes "length nonce_bin = 4" and "160 \<le> length s"
  shows "\<exists>sol. submit_solution bo (JStr s) nonce_bin = Inr sol
           \<and> length sol = min (length s) 256
           \<and> (\<forall>i. i < length sol \<and> (i < 152 \<or> 160 \<le> i) \<longrightarrow> sol ! i = s ! i)
           \<and> take 8 (drop 152 sol) = bytes_hex (rev nonce_bin)"
proof -
  let ?hx = "bytes_hex (rev nonce_bin)"
  let ?sol = "take 152 s @ ?hx @ take 96 (drop 160 s)"
  have hx: "length ?hx = 8" using assms(1) by (simp add: length_bytes_hex)
  have a: "submit_solution bo (JStr s) nonce_bin = Inr ?sol"
    using assms(1) by (rule submit_solution_eq)
  have b: "length ?sol = min (length s) 256"
    using assms(2) hx by simp
  have c: "?sol ! i = s ! i" if "i < length ?sol" "i < 152 \<or> 160 \<le> i" for i
  proof (cases "i < 152")
    case True
    with assms(2) show ?thesis by (simp add: nth_append)
  next
    case False
    with that(2) have i: "160 \<le> i" by simp
    from that(1) b have i2: "i < length s" "i < 256" by simp_all
    have pre: "length (take 152 s @ ?hx) = 160" using assms(2) hx by simp
    have "?sol ! i = ((take 152 s @ ?hx) @ take 96 (drop 160 s)) ! i" by simp
    also have "\<dots> = take 96 (drop 160 s) ! (i - 160)"
      using i pre by (simp only: nth_append) simp
    also have "\<dots> = drop 160 s ! (i - 160)"
      using i i2 by (intro nth_take) simp
    also have "\<dots> = s ! i"
      using i i2 by simp
    finally show ?thesis .
  qed
  have d: "take 8 (drop 152 ?sol) = ?hx"
    using assms(2) hx by simp
  from a b c d show ?thesis by blast
qed

text \<open>The amended claim on a header text of 200 characters.\<close>

theorem submit_solution_splice_witness:
  "length [1, 2, 3, 4 :: byte] = 4
   \<and> 160 \<le> length (replicate 200 CHR ''a'')
   \<and> submit_solution LittleEndian (JStr (replicate 200 CHR ''a'')) [1, 2, 3, 4]
       = Inr (replicate 152 CHR ''a'' @ ''04030201'' @ replicate 40 CHR ''a'')"
proof -
  have "bytes_hex (rev [1, 2, 3, 4]) = ''04030201''" by code_simp
  with submit_solution_splice[of "[1, 2, 3, 4]" "replicate 200 CHR ''a''" LittleEndian]
  show ?thesis
    by (simp add: submit_solution_eq)
qed

subsection \<open>C7: halving the elapsed time\<close>

text \<open>
  Claim C7 says that the bound computed from the elapsed time \<open>t / 2\<close> is exactly twice the
  bound computed from \<open>t\<close>, the bound being \<open>\<lfloor>attempts * scantime / elapsed\<rfloor>\<close>. Both
  bounds are rounded down: 1000000 attempts with \<^verbatim>\<open>scantime = 30\<close> give 117187 for 256
  seconds and 234375 for 128 seconds. And the bound is the integer part of the rounded
  quotient, which can exceed the integer part of the quotient: 3 attempts with
  \<^verbatim>\<open>scantime = 30\<close> give 900 for the float nearest to one tenth, which is above one
  tenth.
\<close>

theorem recalibration_doubles_counterexample:
  "is_double 256 \<and> is_double (256 / 2)
   \<and> new_max_nonce 1000000 30 (Finite 256) = Inr 117187
   \<and> new_max_nonce 1000000 30 (Finite (256 / 2)) = Inr 234375
   \<and> (234375 :: int) \<noteq> 2 * 117187
   \<and> is_double (3602879701896397 / 36028797018963968)
   \<and> new_max_nonce 3 30 (Finite (3602879701896397 / 36028797018963968)) = Inr 900
   \<and> \<lfloor>(3 * 30 :: rat) / (3602879701896397 / 36028797018963968)\<rfloor> = 899"
  by (simp add: is_double_def round64_256 round64_128 new_max_nonce_256 new_max_nonce_128
        round64_tenth new_max_nonce_tenth floor_quotient_tenth)

text \<open>
  Claim C7, amended: let \<open>t\<close> and \<open>t / 2\<close> be positive floats, let \<open>attempts * scantime\<close> be
  non-negative, and let line 170 give the bound \<open>b2\<close> for the elapsed time \<open>t / 2\<close>. Then
  it gives a bound for \<open>t\<close> as well, the integer part of the float quotient of the product
  (as a float) by \<open>t\<close>, and \<open>b2\<close> is twice that bound or twice that bound plus one.
\<close>

theorem recalibration_halved_time:
  assumes "0 < t" and "is_double t" and "is_double (t / 2)"
    and "0 \<le> hashes_done * scantime_v"
    and "new_max_nonce hashes_done scantime_v (Finite (t / 2)) = Inr b2"
  shows "\<exists>a q b1. float_of_int (hashes_done * scantime_v) = Inr a
           \<and> round64 (a / t) = Finite q
           \<and> b1 = \<lfloor>q\<rfloor>
           \<and> new_max_nonce hashes_done scantime_v (Finite t) = Inr b1
           \<and> (b2 = 2 * b1 \<or> b2 = 2 * b1 + 1)"
proof -
  from assms(1,4,5) obtain a q where
    "float_of_int (hashes_done * scantime_v) = Inr a" "round64 (a / t) = Finite q"
    "new_max_nonce hashes_done scantime_v (Finite t) = Inr \<lfloor>q\<rfloor>"
    "b2 = 2 * \<lfloor>q\<rfloor> \<or> b2 = 2 * \<lfloor>q\<rfloor> + 1"
    using new_max_nonce_halved by blast
  then show ?thesis by blast
qed

text \<open>The amended claim at 1000000 attempts, \<^verbatim>\<open>scantime = 30\<close> and 256 seconds.\<close>

theorem recalibration_halved_time_witness:
  "(0 :: rat) < 256 \<and> is_double 256 \<and> is_double (256 / 2) \<and> (0 :: int) \<le> 1000000 * 30
   \<and> new_max_nonce 1000000 30 (Finite (256 / 2)) = Inr 234375
   \<and> new_max_nonce 1000000 30 (Finite 256) = Inr 117187
   \<and> (234375 :: int) = 2 * 117187 + 1"
  using recalibration_halved_time[of 256 1000000 30 234375]
  by (simp add: is_double_def round64_256 round64_128 new_max_nonce_256 new_max_nonce_128)

subsection \<open>C8: buffers whose length is not a multiple of 4\<close>

text \<open>
  Claim C8 says that both transforms drop the bytes after the last complete word and do not
  raise. On the 5-byte buffer 1, 2, 3, 4, 5, \<^verbatim>\<open>bufreverse\<close> raises
  \<^verbatim>\<open>struct.error\<close> and \<^verbatim>\<open>wordreverse\<close> returns 5, 1, 2, 3, 4.
\<close>

theorem transforms_drop_remainder_counterexample:
  "\<not> (bufreverse LittleEndian [1, 2, 3, 4, 5] = bufreverse LittleEndian (take 4 [1, 2, 3, 4, 5])
      \<and> wordreverse [1, 2, 3, 4, 5] = wordreverse (take 4 [1, 2, 3, 4, 5]))"
proof -
  have "bufreverse LittleEndian [1, 2, 3, 4, 5] = Inl StructError" by code_simp
  moreover have "bufreverse LittleEndian (take 4 [1, 2, 3, 4, 5]) = Inr [4, 3, 2, 1]" by code_simp
  ultimately show ?thesis by simp
qed

text \<open>
  Claim C8, amended: for every buffer whose length is not a multiple of 4,
  \<^verbatim>\<open>bufreverse\<close> raises \<^verbatim>\<open>struct.error\<close>, and \<^verbatim>\<open>wordreverse\<close> returns the remainder
  bytes followed by the complete words in reverse order (no byte is dropped).
\<close>

theorem transforms_on_remainder:
  assumes "length buf mod 4 \<noteq> 0"
  shows "bufreverse bo buf = Inl StructError
         \<and> wordreverse buf =
             drop (length buf - length buf mod 4) buf
             @ wordreverse (take (length buf - length buf mod 4) buf)"
  using assms by (simp only: bufreverse_bad wordreverse_remainder[symmetric] simp_thms)

text \<open>The amended claim on a 6-byte buffer.\<close>

theorem transforms_on_remainder_witness:
  "length [1, 2, 3, 4, 5, 6 :: byte] mod 4 \<noteq> 0
   \<and> bufreverse LittleEndian [1, 2, 3, 4, 5, 6] = Inl StructError
   \<and> wordreverse [1, 2, 3, 4, 5, 6] = [5, 6, 1, 2, 3, 4]"
proof -
  have a: "wordreverse [1, 2, 3, 4 :: byte] = [1, 2, 3, 4]" by code_simp
  from transforms_on_remainder[of "[1, 2, 3, 4, 5, 6]" LittleEndian] a
  show ?thesis by simp
qed

subsection \<open>C9: fetch failures\<close>

text \<open>
  Claim C9 says that every fetch failure, a malformed response among them, leads to a pause
  and an unchanged bound, and does not end the process. \<^verbatim>\<open>BitcoinRPC.rpc\<close> tests
  \<^verbatim>\<open>resp_obj is None\<close> and prints that the body cannot be decoded, but for a body that is
  not JSON \<^verbatim>\<open>json.loads\<close> raises before that test, and a failing connection raises as
  well: whatever the rest of the world and the miner, \<^verbatim>\<open>iterate\<close> raises, with no pause.
  (The failures it does recover from are those of lemma \<open>iterate_backoff\<close>.)
\<close>

theorem iterate_fetch_exception:
  "iterate H bo st (w\<lparr>fetch_reply := Body_invalid\<rparr>) self = Inl JSONDecodeError
   \<and> iterate H bo st (w\<lparr>fetch_reply := Conn_error\<rparr>) self = Inl OSError"
  by (simp add: iterate_def)

subsection \<open>C10: the digest and the target are read in one byte order\<close>

text \<open>
  Claim C10: for every buffer whose length is a multiple of 4, \<^verbatim>\<open>bufreverse\<close> followed
  by \<^verbatim>\<open>wordreverse\<close> is the reversal of the whole buffer, the transform that line 112
  applies to the target with \<^verbatim>\<open>[::-1]\<close>; so the integer read from a digest is the integer
  read from the reversed digest, and a target string that decodes to the bytes of a digest
  is read as the same integer as that digest.
\<close>

theorem bufreverse_then_wordreverse_is_rev:
  assumes "length buf mod 4 = 0"
  shows "(case bufreverse bo buf of Inl e \<Rightarrow> False | Inr b \<Rightarrow> wordreverse b = rev buf)
         \<and> hash_int bo buf = py_int16 (bytes_hex (rev buf))
         \<and> (bytes_fromhex targetstr = Inr buf \<longrightarrow> work_target targetstr = hash_int bo buf)"
  using assms
  by (simp add: bufreverse_ok wordreverse_bufreverse hash_int_rev work_target_def)

text \<open>Claim C10 on an 8-byte buffer and the target string that decodes to it.\<close>

theorem bufreverse_then_wordreverse_is_rev_witness:
  "length [1, 2, 3, 4, 5, 6, 7, 8 :: byte] mod 4 = 0
   \<and> bufreverse BigEndian [1, 2, 3, 4, 5, 6, 7, 8] = Inr [4, 3, 2, 1, 8, 7, 6, 5]
   \<and> wordreverse [4, 3, 2, 1, 8, 7, 6, 5] = rev [1, 2, 3, 4, 5, 6, 7, 8]
   \<and> bytes_fromhex (JStr ''0102030405060708'') = Inr [1, 2, 3, 4, 5, 6, 7, 8]
   \<and> work_target (JStr ''0102030405060708'') = Inr 0x0807060504030201
   \<and> hash_int BigEndian [1, 2, 3, 4, 5, 6, 7, 8] = Inr 0x0807060504030201"
proof -
  have a: "bufreverse BigEndian [1, 2, 3, 4, 5, 6, 7, 8] = Inr [4, 3, 2, 1, 8, 7, 6, 5]"
    by code_simp
  have b: "bytes_fromhex (JStr ''0102030405060708'') = Inr [1, 2, 3, 4, 5, 6, 7, 8]"
    by code_simp
  have c: "work_target (JStr ''0102030405060708'') = Inr 0x0807060504030201"
    by code_simp
  from bufreverse_then_wordreverse_is_rev
         [of "[1, 2, 3, 4, 5, 6, 7, 8]" BigEndian "JStr ''0102030405060708''"] a b c
  show ?thesis by simp
qed

end
